theory Spec2Isabelle
  imports Main
begin

section \<open>The parse tree store\<close>

text \<open>
  The C program keeps the parse tree in heap nodes
  \<^verbatim>\<open>struct Node { char content[MAX_CONTENT_LEN]; Node * childs[MAX_CHILDS]; }\<close>.
  Every node is allocated by \<^verbatim>\<open>node_new\<close>, attached to exactly one parent, and released
  through that parent, so the heap below a node is a tree without sharing. It is modelled
  as a value: a node is its label and its array of child slots, a slot being \<open>None\<close> for
  \<^verbatim>\<open>NULL\<close> and \<open>Some c\<close> for a pointer to the subtree \<open>c\<close>. Releasing a subtree
  (\<^verbatim>\<open>node_free\<close>) is removing it from its slot.
\<close>

definition MAX_CHILDS :: nat where
  "MAX_CHILDS = 4"

datatype Node = Node (content: string) (childs: "Node option list")

text \<open>
  \<^verbatim>\<open>node_init\<close> overwrites both fields of the node it is given, so the result does not
  depend on what the (freshly allocated, or caller supplied) node held before.
\<close>

definition node_init :: "string \<Rightarrow> Node" where
  "node_init s = Node s (replicate MAX_CHILDS None)"

text \<open>
  \<^verbatim>\<open>node_add_child\<close>: the loop \<^verbatim>\<open>for (i = 0; i < MAX_CHILDS; ++i)\<close> stores the child in
  the first \<^verbatim>\<open>NULL\<close> slot and breaks. When no slot is \<^verbatim>\<open>NULL\<close> the loop runs out and the
  child is attached nowhere. The C function returns nothing in either case; the model
  threads a counter \<open>d\<close> of the children that were dropped in this way, so that the
  absence of any dropped child can be stated.
\<close>

function add_child_loop :: "nat \<Rightarrow> Node option list \<Rightarrow> Node \<Rightarrow> (Node option list) option" where
  "add_child_loop i cs c =
     (if i < MAX_CHILDS
      then (if cs ! i = None then Some (cs[i := Some c]) else add_child_loop (i + 1) cs c)
      else None)"
  by pat_completeness auto
termination
  by (relation "measure (\<lambda>(i, cs, c). MAX_CHILDS - i)") auto

declare add_child_loop.simps [simp del]

definition node_add_child :: "Node \<Rightarrow> Node \<Rightarrow> nat \<Rightarrow> Node \<times> nat" where
  "node_add_child p_node p_child d =
     (case add_child_loop 0 (childs p_node) p_child of
        Some cs \<Rightarrow> (Node (content p_node) cs, d)
      | None \<Rightarrow> (p_node, Suc d))"

text \<open>
  \<^verbatim>\<open>node_free_last_childs\<close>: the loop \<^verbatim>\<open>for (i = MAX_CHILDS-1; i >= 0; --i)\<close>. The first
  argument of \<open>free_last_loop\<close> is \<open>i + 1\<close>, so that \<open>0\<close> is the loop exit. An occupied
  slot is released, cleared and counted (\<^verbatim>\<open>--n\<close>); the test \<^verbatim>\<open>n == 0\<close> comes after it, in
  every iteration. The count is a C \<^verbatim>\<open>int\<close>, decremented at most \<open>MAX_CHILDS\<close> times.
\<close>

fun free_last_loop :: "nat \<Rightarrow> Node option list \<Rightarrow> int \<Rightarrow> Node option list" where
  "free_last_loop 0 cs n = cs"
| "free_last_loop (Suc i) cs n =
     (let (cs', n') = (if cs ! i \<noteq> None then (cs[i := None], n - 1) else (cs, n))
      in if n' = 0 then cs' else free_last_loop i cs' n')"

definition node_free_last_childs :: "Node \<Rightarrow> int \<Rightarrow> Node" where
  "node_free_last_childs p_node n =
     Node (content p_node) (free_last_loop MAX_CHILDS (childs p_node) n)"

section \<open>Terminals\<close>

text \<open>
  The input is a C string: the characters of \<open>reg_expr\<close> followed by the terminating
  \<^verbatim>\<open>'\0'\<close>. Reading at the index \<open>length reg_expr\<close> yields the terminator. The cursor is a
  C \<^verbatim>\<open>int\<close>; it is modelled as a natural number (it starts at 0 and is only ever
  incremented, and input lengths stay below \<^verbatim>\<open>INT_MAX\<close>).
\<close>

definition char_at :: "string \<Rightarrow> nat \<Rightarrow> char" where
  "char_at reg_expr i = (if i < length reg_expr then reg_expr ! i else CHR 0x00)"

text \<open>
  A recognizer returns the new cursor (\<open>Some\<close>: \<^verbatim>\<open>true\<close> with \<^verbatim>\<open>*p_idx_out\<close> written;
  \<open>None\<close>: \<^verbatim>\<open>false\<close> with \<^verbatim>\<open>*p_idx_out\<close> untouched), the node it was given, updated,
  and the counter of dropped children.
\<close>

type_synonym result = "nat option \<times> Node \<times> nat"

definition epsilon :: "string \<Rightarrow> nat \<Rightarrow> Node \<Rightarrow> nat \<Rightarrow> result" where
  "epsilon reg_expr i p_node d =
     (if char_at reg_expr i = CHR ''#''
      then (case node_add_child p_node (node_init ''#'') d of (p, d') \<Rightarrow> (Some (i + 1), p, d'))
      else (None, p_node, d))"

definition is_symbol_char :: "char \<Rightarrow> bool" where
  "is_symbol_char c =
     (c = CHR ''_''
      \<or> (48 \<le> (of_char c :: nat) \<and> (of_char c :: nat) \<le> 57)
      \<or> (65 \<le> (of_char c :: nat) \<and> (of_char c :: nat) \<le> 90)
      \<or> (97 \<le> (of_char c :: nat) \<and> (of_char c :: nat) \<le> 122))"

definition symbol :: "string \<Rightarrow> nat \<Rightarrow> Node \<Rightarrow> nat \<Rightarrow> result" where
  "symbol reg_expr i p_node d =
     (if is_symbol_char (char_at reg_expr i)
      then (case node_add_child p_node (node_init [char_at reg_expr i]) d of
              (p, d') \<Rightarrow> (Some (i + 1), p, d'))
      else (None, p_node, d))"

definition lpar :: "string \<Rightarrow> nat \<Rightarrow> Node \<Rightarrow> nat \<Rightarrow> result" where
  "lpar reg_expr i p_node d =
     (if char_at reg_expr i = CHR ''(''
      then (case node_add_child p_node (node_init ''('') d of (p, d') \<Rightarrow> (Some (i + 1), p, d'))
      else (None, p_node, d))"

definition rpar :: "string \<Rightarrow> nat \<Rightarrow> Node \<Rightarrow> nat \<Rightarrow> result" where
  "rpar reg_expr i p_node d =
     (if char_at reg_expr i = CHR '')''
      then (case node_add_child p_node (node_init '')'') d of (p, d') \<Rightarrow> (Some (i + 1), p, d'))
      else (None, p_node, d))"

definition star :: "string \<Rightarrow> nat \<Rightarrow> Node \<Rightarrow> nat \<Rightarrow> result" where
  "star reg_expr i p_node d =
     (if char_at reg_expr i = CHR ''*''
      then (case node_add_child p_node (node_init ''*'') d of (p, d') \<Rightarrow> (Some (i + 1), p, d'))
      else (None, p_node, d))"

text \<open>The terminal \<^verbatim>\<open>plus\<close> of the source (the name \<open>plus\<close> is taken in HOL).\<close>

definition plus_tok :: "string \<Rightarrow> nat \<Rightarrow> Node \<Rightarrow> nat \<Rightarrow> result" where
  "plus_tok reg_expr i p_node d =
     (if char_at reg_expr i = CHR ''+''
      then (case node_add_child p_node (node_init ''+'') d of (p, d') \<Rightarrow> (Some (i + 1), p, d'))
      else (None, p_node, d))"

section \<open>Variables\<close>

text \<open>The label \<^verbatim>\<open>"RE'"\<close>: the letters R, E and an apostrophe (character 39).\<close>

definition RE_prime_label :: string where
  "RE_prime_label = ''RE'' @ [CHR 0x27]"

text \<open>
  \<^verbatim>\<open>RE\<close> and \<^verbatim>\<open>RE_prime\<close>. Each C function allocates its own node, attaches it to
  \<^verbatim>\<open>p_node\<close> and then works on it through the local pointer \<^verbatim>\<open>p_RE\<close>; until the function
  returns, \<^verbatim>\<open>p_node\<close> itself is not touched again. The model therefore carries the
  node under construction as a value through the alternatives and puts it into the
  parent (\<open>node_add_child\<close>, at the slot the C code chose on entry) when the
  function returns; on failure the final \<^verbatim>\<open>node_free_last_childs(p_node, 1)\<close> follows.

  The C alternatives are consecutive \<^verbatim>\<open>if\<close> blocks that either \<^verbatim>\<open>return true\<close> or fall
  through to the next block after their rollback. \<open>r1\<close>, ..., \<open>r6\<close> are the outcomes
  after the first, ..., sixth block: a success is passed on unchanged, a failure hands
  the node as the block left it to the next block.
\<close>

function RE :: "string \<Rightarrow> nat \<Rightarrow> Node \<Rightarrow> nat \<Rightarrow> result"
  and RE_prime :: "string \<Rightarrow> nat \<Rightarrow> Node \<Rightarrow> nat \<Rightarrow> result" where
  "RE reg_expr i p_node d =
     (let p_RE = node_init ''RE'';
          r1 = (case epsilon reg_expr i p_RE d of
                  (None, st) \<Rightarrow> (None, st)
                | (Some t1, n1, d1) \<Rightarrow>
                    (case RE_prime reg_expr t1 n1 d1 of
                       (Some out, st) \<Rightarrow> (Some out, st)
                     | (None, n2, d2) \<Rightarrow> (None, node_free_last_childs n2 1, d2)));
          r2 = (case r1 of
                  (Some out, st) \<Rightarrow> (Some out, st)
                | (None, n0, d0) \<Rightarrow>
                    (case symbol reg_expr i n0 d0 of
                       (None, st) \<Rightarrow> (None, st)
                     | (Some t1, n1, d1) \<Rightarrow>
                         (case RE_prime reg_expr t1 n1 d1 of
                            (Some out, st) \<Rightarrow> (Some out, st)
                          | (None, n2, d2) \<Rightarrow> (None, node_free_last_childs n2 1, d2))));
          r3 = (case r2 of
                  (Some out, st) \<Rightarrow> (Some out, st)
                | (None, n0, d0) \<Rightarrow>
                    (case lpar reg_expr i n0 d0 of
                       (None, st) \<Rightarrow> (None, st)
                     | (Some t1, n1, d1) \<Rightarrow>
                         (case RE reg_expr t1 n1 d1 of
                            (None, n2, d2) \<Rightarrow> (None, node_free_last_childs n2 1, d2)
                          | (Some t2, n2, d2) \<Rightarrow>
                              (case rpar reg_expr t2 n2 d2 of
                                 (None, n3, d3) \<Rightarrow> (None, node_free_last_childs n3 2, d3)
                               | (Some t3, n3, d3) \<Rightarrow>
                                   (case RE_prime reg_expr t3 n3 d3 of
                                      (Some out, st) \<Rightarrow> (Some out, st)
                                    | (None, n4, d4) \<Rightarrow>
                                        (None, node_free_last_childs n4 3, d4))))));
          r4 = (case r3 of
                  (Some out, st) \<Rightarrow> (Some out, st)
                | (None, n0, d0) \<Rightarrow>
                    (case lpar reg_expr i n0 d0 of
                       (None, st) \<Rightarrow> (None, st)
                     | (Some t1, n1, d1) \<Rightarrow>
                         (case RE reg_expr t1 n1 d1 of
                            (None, n2, d2) \<Rightarrow> (None, node_free_last_childs n2 1, d2)
                          | (Some t2, n2, d2) \<Rightarrow>
                              (case rpar reg_expr t2 n2 d2 of
                                 (Some out, st) \<Rightarrow> (Some out, st)
                               | (None, n3, d3) \<Rightarrow> (None, node_free_last_childs n3 2, d3)))));
          r5 = (case r4 of
                  (Some out, st) \<Rightarrow> (Some out, st)
                | (None, n0, d0) \<Rightarrow> epsilon reg_expr i n0 d0);
          r6 = (case r5 of
                  (Some out, st) \<Rightarrow> (Some out, st)
                | (None, n0, d0) \<Rightarrow> symbol reg_expr i n0 d0)
      in case r6 of
           (r, n, e) \<Rightarrow>
             (case node_add_child p_node n e of
                (p, e') \<Rightarrow>
                  (case r of
                     Some out \<Rightarrow> (Some out, p, e')
                   | None \<Rightarrow> (None, node_free_last_childs p 1, e'))))"
| "RE_prime reg_expr i p_node d =
     (let p_RE_prime = node_init RE_prime_label;
          r1 = (case plus_tok reg_expr i p_RE_prime d of
                  (None, st) \<Rightarrow> (None, st)
                | (Some t1, n1, d1) \<Rightarrow>
                    (case RE reg_expr t1 n1 d1 of
                       (None, n2, d2) \<Rightarrow> (None, node_free_last_childs n2 1, d2)
                     | (Some t2, n2, d2) \<Rightarrow>
                         (case RE_prime reg_expr t2 n2 d2 of
                            (Some out, st) \<Rightarrow> (Some out, st)
                          | (None, n3, d3) \<Rightarrow> (None, node_free_last_childs n3 2, d3))));
          r2 = (case r1 of
                  (Some out, st) \<Rightarrow> (Some out, st)
                | (None, n0, d0) \<Rightarrow>
                    (case plus_tok reg_expr i n0 d0 of
                       (None, st) \<Rightarrow> (None, st)
                     | (Some t1, n1, d1) \<Rightarrow>
                         (case RE reg_expr t1 n1 d1 of
                            (Some out, st) \<Rightarrow> (Some out, st)
                          | (None, n2, d2) \<Rightarrow> (None, node_free_last_childs n2 1, d2))));
          r3 = (case r2 of
                  (Some out, st) \<Rightarrow> (Some out, st)
                | (None, n0, d0) \<Rightarrow>
                    (case star reg_expr i n0 d0 of
                       (None, st) \<Rightarrow> (None, st)
                     | (Some t1, n1, d1) \<Rightarrow>
                         (case RE_prime reg_expr t1 n1 d1 of
                            (Some out, st) \<Rightarrow> (Some out, st)
                          | (None, n2, d2) \<Rightarrow> (None, node_free_last_childs n2 1, d2))));
          r4 = (case r3 of
                  (Some out, st) \<Rightarrow> (Some out, st)
                | (None, n0, d0) \<Rightarrow>
                    (case RE reg_expr i n0 d0 of
                       (None, st) \<Rightarrow> (None, st)
                     | (Some t1, n1, d1) \<Rightarrow>
                         (case RE_prime reg_expr t1 n1 d1 of
                            (Some out, st) \<Rightarrow> (Some out, st)
                          | (None, n2, d2) \<Rightarrow> (None, node_free_last_childs n2 1, d2))));
          r5 = (case r4 of
                  (Some out, st) \<Rightarrow> (Some out, st)
                | (None, n0, d0) \<Rightarrow> RE reg_expr i n0 d0);
          r6 = (case r5 of
                  (Some out, st) \<Rightarrow> (Some out, st)
                | (None, n0, d0) \<Rightarrow> star reg_expr i n0 d0)
      in case r6 of
           (r, n, e) \<Rightarrow>
             (case node_add_child p_node n e of
                (p, e') \<Rightarrow>
                  (case r of
                     Some out \<Rightarrow> (Some out, p, e')
                   | None \<Rightarrow> (None, node_free_last_childs p 1, e'))))"
  by pat_completeness auto

subsection \<open>The alternatives, one by one\<close>

text \<open>
  The blocks of \<open>RE\<close> and \<open>RE_prime\<close> have four shapes, by the number of
  constituents. \<open>try2 A B k1\<close> is
  \<^verbatim>\<open>if (A) { if (B) return true; else node_free_last_childs(p, k1); }\<close>,
  \<open>try3\<close> and \<open>try4\<close> are the same with three and four constituents (the rollback
  count of the innermost \<^verbatim>\<open>else\<close> first), and a block with a single constituent is
  the constituent itself. \<open>otherwise\<close> is the fall-through to the next block and
  \<open>finish\<close> the end of both functions. \<open>RE_alt s k\<close> and \<open>RE_prime_alt s k\<close> name the
  \<open>k\<close>-th block of either function; \<open>RE_unfold\<close> and \<open>RE_prime_unfold\<close> below show that
  the functions are these blocks tried in order. \<open>RE_alts\<close> and \<open>RE_prime_alts\<close> are
  the blocks with the two recursive callees as parameters.
\<close>

type_synonym recog = "nat \<Rightarrow> Node \<Rightarrow> nat \<Rightarrow> result"

definition try2 :: "recog \<Rightarrow> recog \<Rightarrow> int \<Rightarrow> recog" where
  "try2 A B k1 i n d =
     (case A i n d of
        (None, st) \<Rightarrow> (None, st)
      | (Some t1, n1, d1) \<Rightarrow>
          (case B t1 n1 d1 of
             (Some out, st) \<Rightarrow> (Some out, st)
           | (None, n2, d2) \<Rightarrow> (None, node_free_last_childs n2 k1, d2)))"

definition try3 :: "recog \<Rightarrow> recog \<Rightarrow> recog \<Rightarrow> int \<Rightarrow> int \<Rightarrow> recog" where
  "try3 A B C k2 k1 i n d =
     (case A i n d of
        (None, st) \<Rightarrow> (None, st)
      | (Some t1, n1, d1) \<Rightarrow>
          (case B t1 n1 d1 of
             (None, n2, d2) \<Rightarrow> (None, node_free_last_childs n2 k1, d2)
           | (Some t2, n2, d2) \<Rightarrow>
               (case C t2 n2 d2 of
                  (Some out, st) \<Rightarrow> (Some out, st)
                | (None, n3, d3) \<Rightarrow> (None, node_free_last_childs n3 k2, d3))))"

definition try4 :: "recog \<Rightarrow> recog \<Rightarrow> recog \<Rightarrow> recog \<Rightarrow> int \<Rightarrow> int \<Rightarrow> int \<Rightarrow> recog" where
  "try4 A B C D k3 k2 k1 i n d =
     (case A i n d of
        (None, st) \<Rightarrow> (None, st)
      | (Some t1, n1, d1) \<Rightarrow>
          (case B t1 n1 d1 of
             (None, n2, d2) \<Rightarrow> (None, node_free_last_childs n2 k1, d2)
           | (Some t2, n2, d2) \<Rightarrow>
               (case C t2 n2 d2 of
                  (None, n3, d3) \<Rightarrow> (None, node_free_last_childs n3 k2, d3)
                | (Some t3, n3, d3) \<Rightarrow>
                    (case D t3 n3 d3 of
                       (Some out, st) \<Rightarrow> (Some out, st)
                     | (None, n4, d4) \<Rightarrow> (None, node_free_last_childs n4 k3, d4)))))"

definition otherwise :: "result \<Rightarrow> recog \<Rightarrow> nat \<Rightarrow> result" where
  "otherwise r B i =
     (case r of
        (Some out, st) \<Rightarrow> (Some out, st)
      | (None, n0, d0) \<Rightarrow> B i n0 d0)"

definition finish :: "Node \<Rightarrow> result \<Rightarrow> result" where
  "finish p_node r6 =
     (case r6 of
        (r, n, e) \<Rightarrow>
          (case node_add_child p_node n e of
             (p, e') \<Rightarrow>
               (case r of
                  Some out \<Rightarrow> (Some out, p, e')
                | None \<Rightarrow> (None, node_free_last_childs p 1, e'))))"

definition first_of :: "(nat \<Rightarrow> recog) \<Rightarrow> recog" where
  "first_of alt i n d =
     otherwise (otherwise (otherwise (otherwise (otherwise
       (alt 1 i n d) (alt 2) i) (alt 3) i) (alt 4) i) (alt 5) i) (alt 6) i"

definition RE_alts :: "recog \<Rightarrow> recog \<Rightarrow> string \<Rightarrow> nat \<Rightarrow> recog" where
  "RE_alts re re' s k =
     (if k = 1 then try2 (epsilon s) re' 1
      else if k = 2 then try2 (symbol s) re' 1
      else if k = 3 then try4 (lpar s) re (rpar s) re' 3 2 1
      else if k = 4 then try3 (lpar s) re (rpar s) 2 1
      else if k = 5 then epsilon s
      else symbol s)"

definition RE_prime_alts :: "recog \<Rightarrow> recog \<Rightarrow> string \<Rightarrow> nat \<Rightarrow> recog" where
  "RE_prime_alts re re' s k =
     (if k = 1 then try3 (plus_tok s) re re' 2 1
      else if k = 2 then try2 (plus_tok s) re 1
      else if k = 3 then try2 (star s) re' 1
      else if k = 4 then try2 re re' 1
      else if k = 5 then re
      else star s)"

definition RE_alt :: "string \<Rightarrow> nat \<Rightarrow> recog" where
  "RE_alt s = RE_alts (RE s) (RE_prime s) s"

definition RE_prime_alt :: "string \<Rightarrow> nat \<Rightarrow> recog" where
  "RE_prime_alt s = RE_prime_alts (RE s) (RE_prime s) s"

lemma RE_alt_simps:
  "RE_alt s 1 = try2 (epsilon s) (RE_prime s) 1"
  "RE_alt s 2 = try2 (symbol s) (RE_prime s) 1"
  "RE_alt s 3 = try4 (lpar s) (RE s) (rpar s) (RE_prime s) 3 2 1"
  "RE_alt s 4 = try3 (lpar s) (RE s) (rpar s) 2 1"
  "RE_alt s 5 = epsilon s"
  "RE_alt s 6 = symbol s"
  by (simp_all add: RE_alt_def RE_alts_def)

lemma RE_prime_alt_simps:
  "RE_prime_alt s 1 = try3 (plus_tok s) (RE s) (RE_prime s) 2 1"
  "RE_prime_alt s 2 = try2 (plus_tok s) (RE s) 1"
  "RE_prime_alt s 3 = try2 (star s) (RE_prime s) 1"
  "RE_prime_alt s 4 = try2 (RE s) (RE_prime s) 1"
  "RE_prime_alt s 5 = RE s"
  "RE_prime_alt s 6 = star s"
  by (simp_all add: RE_prime_alt_def RE_prime_alts_def)

lemma RE_dom_unfold:
  "RE_RE_prime_dom (Inl (s, i, p, d)) \<Longrightarrow>
     RE s i p d = finish p (first_of (RE_alt s) i (node_init ''RE'') d)"
  apply (subst RE.psimps, assumption)
  unfolding first_of_def RE_alt_simps otherwise_def finish_def try2_def try3_def try4_def Let_def
  apply (rule refl)
  done

lemma RE_prime_dom_unfold:
  "RE_RE_prime_dom (Inr (s, i, p, d)) \<Longrightarrow>
     RE_prime s i p d = finish p (first_of (RE_prime_alt s) i (node_init RE_prime_label) d)"
  apply (subst RE_prime.psimps, assumption)
  unfolding first_of_def RE_prime_alt_simps otherwise_def finish_def try2_def try3_def try4_def
    Let_def
  apply (rule refl)
  done

subsection \<open>A successful recognizer moves the cursor forward, inside the input\<close>

lemma epsilon_Some: "epsilon s i p d = (Some t, st) \<Longrightarrow> t = Suc i \<and> i < length s"
  by (auto simp: epsilon_def char_at_def split: if_splits prod.splits)

lemma symbol_Some: "symbol s i p d = (Some t, st) \<Longrightarrow> t = Suc i \<and> i < length s"
  by (auto simp: symbol_def char_at_def is_symbol_char_def split: if_splits prod.splits)

lemma lpar_Some: "lpar s i p d = (Some t, st) \<Longrightarrow> t = Suc i \<and> i < length s"
  by (auto simp: lpar_def char_at_def split: if_splits prod.splits)

lemma rpar_Some: "rpar s i p d = (Some t, st) \<Longrightarrow> t = Suc i \<and> i < length s"
  by (auto simp: rpar_def char_at_def split: if_splits prod.splits)

lemma star_Some: "star s i p d = (Some t, st) \<Longrightarrow> t = Suc i \<and> i < length s"
  by (auto simp: star_def char_at_def split: if_splits prod.splits)

lemma plus_tok_Some: "plus_tok s i p d = (Some t, st) \<Longrightarrow> t = Suc i \<and> i < length s"
  by (auto simp: plus_tok_def char_at_def split: if_splits prod.splits)

lemma try2_SomeD:
  "try2 A B k1 i n d = (Some j, st) \<Longrightarrow>
     \<exists>t1 n1 d1. A i n d = (Some t1, n1, d1) \<and> B t1 n1 d1 = (Some j, st)"
  by (auto simp: try2_def split: prod.splits option.splits)

lemma try3_SomeD:
  "try3 A B C k2 k1 i n d = (Some j, st) \<Longrightarrow>
     \<exists>t1 n1 d1 t2 n2 d2. A i n d = (Some t1, n1, d1) \<and> B t1 n1 d1 = (Some t2, n2, d2)
        \<and> C t2 n2 d2 = (Some j, st)"
  by (auto simp: try3_def split: prod.splits option.splits)

lemma try4_SomeD:
  "try4 A B C D k3 k2 k1 i n d = (Some j, st) \<Longrightarrow>
     \<exists>t1 n1 d1 t2 n2 d2 t3 n3 d3. A i n d = (Some t1, n1, d1) \<and> B t1 n1 d1 = (Some t2, n2, d2)
        \<and> C t2 n2 d2 = (Some t3, n3, d3) \<and> D t3 n3 d3 = (Some j, st)"
  by (auto simp: try4_def split: prod.splits option.splits)

lemma otherwise_SomeD:
  "otherwise r B i = (Some j, st) \<Longrightarrow>
     r = (Some j, st) \<or> (\<exists>n0 d0. r = (None, n0, d0) \<and> B i n0 d0 = (Some j, st))"
  by (auto simp: otherwise_def split: prod.splits option.splits)

lemma finish_SomeD: "finish p r = (Some j, st) \<Longrightarrow> \<exists>n e. r = (Some j, n, e)"
  by (auto simp: finish_def split: prod.splits option.splits)

text \<open>
  Termination of \<open>RE\<close> and \<open>RE_prime\<close> depends on the cursors that earlier
  calls return (\<^verbatim>\<open>idx_tmp1\<close>, \<^verbatim>\<open>idx_tmp2\<close>, \<^verbatim>\<open>idx_tmp3\<close>). So the progress of a
  successful call is shown first, for the calls that terminate.
\<close>

lemma progress_dom:
  "RE_RE_prime_dom (Inl (s, i, p, d)) \<Longrightarrow>
     \<forall>j st. RE s i p d = (Some j, st) \<longrightarrow> i < j \<and> j \<le> length s"
  "RE_RE_prime_dom (Inr (s, i, p, d)) \<Longrightarrow>
     \<forall>j st. RE_prime s i p d = (Some j, st) \<longrightarrow> i < j \<and> j \<le> length s"
proof (induct s i p d and s i p d rule: RE_RE_prime.pinduct)
  case (1 s i p d)
  define x where "x = node_init ''RE''"
  define r1 where "r1 = RE_alt s 1 i x d"
  define r2 where "r2 = otherwise r1 (RE_alt s 2) i"
  define r3 where "r3 = otherwise r2 (RE_alt s 3) i"
  define r4 where "r4 = otherwise r3 (RE_alt s 4) i"
  define r5 where "r5 = otherwise r4 (RE_alt s 5) i"
  define r6 where "r6 = otherwise r5 (RE_alt s 6) i"
  note e1 = r1_def [unfolded RE_alt_simps try2_def]
  note e2 = r2_def [unfolded otherwise_def RE_alt_simps try2_def]
  note e3 = r3_def [unfolded otherwise_def RE_alt_simps try4_def]
  have s1: "i < j \<and> j \<le> length s" if "r1 = (Some j, st)" for j st
  proof -
    from that obtain t1 n1 d1 where a: "epsilon s i x d = (Some t1, n1, d1)"
      and b: "RE_prime s t1 n1 d1 = (Some j, st)"
      unfolding r1_def RE_alt_simps by (blast dest: try2_SomeD)
    from "1.hyps"(2) [OF x_def a [symmetric] refl refl] b have "t1 < j \<and> j \<le> length s"
      by blast
    with epsilon_Some [OF a] show ?thesis by simp
  qed
  have s2: "i < j \<and> j \<le> length s" if "r2 = (Some j, st)" for j st
  proof -
    from that consider "r1 = (Some j, st)"
      | n0 d0 where "r1 = (None, n0, d0)" "RE_alt s 2 i n0 d0 = (Some j, st)"
      unfolding r2_def by (blast dest: otherwise_SomeD)
    then show ?thesis
    proof cases
      case 1
      then show ?thesis by (rule s1)
    next
      case 2
      from 2(2) obtain t1 n1 d1 where a: "symbol s i n0 d0 = (Some t1, n1, d1)"
        and b: "RE_prime s t1 n1 d1 = (Some j, st)"
        unfolding RE_alt_simps by (blast dest: try2_SomeD)
      from "1.hyps"(3) [OF x_def e1 2(1) [symmetric] refl refl a [symmetric] refl refl] b
      have "t1 < j \<and> j \<le> length s" by blast
      with symbol_Some [OF a] show ?thesis by simp
    qed
  qed
  have s3: "i < j \<and> j \<le> length s" if "r3 = (Some j, st)" for j st
  proof -
    from that consider "r2 = (Some j, st)"
      | n0 d0 where "r2 = (None, n0, d0)" "RE_alt s 3 i n0 d0 = (Some j, st)"
      unfolding r3_def by (blast dest: otherwise_SomeD)
    then show ?thesis
    proof cases
      case 1
      then show ?thesis by (rule s2)
    next
      case 2
      from 2(2) obtain t1 n1 d1 t2 n2 d2 t3 n3 d3
        where a: "lpar s i n0 d0 = (Some t1, n1, d1)"
        and b: "RE s t1 n1 d1 = (Some t2, n2, d2)"
        and c: "rpar s t2 n2 d2 = (Some t3, n3, d3)"
        and e: "RE_prime s t3 n3 d3 = (Some j, st)"
        unfolding RE_alt_simps by (blast dest: try4_SomeD)
      from "1.hyps"(4) [OF x_def e1 e2 2(1) [symmetric] refl refl a [symmetric] refl refl] b
      have b': "t1 < t2 \<and> t2 \<le> length s" by blast
      from "1.hyps"(5) [OF x_def e1 e2 2(1) [symmetric] refl refl a [symmetric] refl refl
          b [symmetric] refl refl c [symmetric] refl refl] e
      have "t3 < j \<and> j \<le> length s" by blast
      with b' lpar_Some [OF a] rpar_Some [OF c] show ?thesis by simp
    qed
  qed
  have s4: "i < j \<and> j \<le> length s" if "r4 = (Some j, st)" for j st
  proof -
    from that consider "r3 = (Some j, st)"
      | n0 d0 where "r3 = (None, n0, d0)" "RE_alt s 4 i n0 d0 = (Some j, st)"
      unfolding r4_def by (blast dest: otherwise_SomeD)
    then show ?thesis
    proof cases
      case 1
      then show ?thesis by (rule s3)
    next
      case 2
      from 2(2) obtain t1 n1 d1 t2 n2 d2 where a: "lpar s i n0 d0 = (Some t1, n1, d1)"
        and b: "RE s t1 n1 d1 = (Some t2, n2, d2)"
        and c: "rpar s t2 n2 d2 = (Some j, st)"
        unfolding RE_alt_simps by (blast dest: try3_SomeD)
      from "1.hyps"(6) [OF x_def e1 e2 e3 2(1) [symmetric] refl refl a [symmetric] refl refl] b
      have b': "t1 < t2 \<and> t2 \<le> length s" by blast
      with lpar_Some [OF a] rpar_Some [OF c] show ?thesis by simp
    qed
  qed
  have s5: "i < j \<and> j \<le> length s" if "r5 = (Some j, st)" for j st
  proof -
    from that consider "r4 = (Some j, st)"
      | n0 d0 where "r4 = (None, n0, d0)" "epsilon s i n0 d0 = (Some j, st)"
      unfolding r5_def RE_alt_simps by (blast dest: otherwise_SomeD)
    then show ?thesis
      by cases (auto dest: s4 epsilon_Some)
  qed
  have s6: "i < j \<and> j \<le> length s" if "r6 = (Some j, st)" for j st
  proof -
    from that consider "r5 = (Some j, st)"
      | n0 d0 where "r5 = (None, n0, d0)" "symbol s i n0 d0 = (Some j, st)"
      unfolding r6_def RE_alt_simps by (blast dest: otherwise_SomeD)
    then show ?thesis
      by cases (auto dest: s5 symbol_Some)
  qed
  have "RE s i p d = finish p r6"
    unfolding RE_dom_unfold [OF "1.hyps"(1)] first_of_def r6_def r5_def r4_def r3_def r2_def
      r1_def x_def ..
  then show ?case
    by (auto dest!: finish_SomeD s6)
next
  case (2 s i p d)
  define x where "x = node_init RE_prime_label"
  define r1 where "r1 = RE_prime_alt s 1 i x d"
  define r2 where "r2 = otherwise r1 (RE_prime_alt s 2) i"
  define r3 where "r3 = otherwise r2 (RE_prime_alt s 3) i"
  define r4 where "r4 = otherwise r3 (RE_prime_alt s 4) i"
  define r5 where "r5 = otherwise r4 (RE_prime_alt s 5) i"
  define r6 where "r6 = otherwise r5 (RE_prime_alt s 6) i"
  note e1 = r1_def [unfolded RE_prime_alt_simps try3_def]
  note e2 = r2_def [unfolded otherwise_def RE_prime_alt_simps try2_def]
  note e3 = r3_def [unfolded otherwise_def RE_prime_alt_simps try2_def]
  note e4 = r4_def [unfolded otherwise_def RE_prime_alt_simps try2_def]
  have s1: "i < j \<and> j \<le> length s" if "r1 = (Some j, st)" for j st
  proof -
    from that obtain t1 n1 d1 t2 n2 d2 where a: "plus_tok s i x d = (Some t1, n1, d1)"
      and b: "RE s t1 n1 d1 = (Some t2, n2, d2)"
      and c: "RE_prime s t2 n2 d2 = (Some j, st)"
      unfolding r1_def RE_prime_alt_simps by (blast dest: try3_SomeD)
    from "2.hyps"(2) [OF x_def a [symmetric] refl refl] b have b': "t1 < t2 \<and> t2 \<le> length s"
      by blast
    from "2.hyps"(3) [OF x_def a [symmetric] refl refl b [symmetric] refl refl] c
    have "t2 < j \<and> j \<le> length s" by blast
    with b' plus_tok_Some [OF a] show ?thesis by simp
  qed
  have s2: "i < j \<and> j \<le> length s" if "r2 = (Some j, st)" for j st
  proof -
    from that consider "r1 = (Some j, st)"
      | n0 d0 where "r1 = (None, n0, d0)" "RE_prime_alt s 2 i n0 d0 = (Some j, st)"
      unfolding r2_def by (blast dest: otherwise_SomeD)
    then show ?thesis
    proof cases
      case 1
      then show ?thesis by (rule s1)
    next
      case 2
      from 2(2) obtain t1 n1 d1 where a: "plus_tok s i n0 d0 = (Some t1, n1, d1)"
        and b: "RE s t1 n1 d1 = (Some j, st)"
        unfolding RE_prime_alt_simps by (blast dest: try2_SomeD)
      from "2.hyps"(4) [OF x_def e1 2(1) [symmetric] refl refl a [symmetric] refl refl] b
      have "t1 < j \<and> j \<le> length s" by blast
      with plus_tok_Some [OF a] show ?thesis by simp
    qed
  qed
  have s3: "i < j \<and> j \<le> length s" if "r3 = (Some j, st)" for j st
  proof -
    from that consider "r2 = (Some j, st)"
      | n0 d0 where "r2 = (None, n0, d0)" "RE_prime_alt s 3 i n0 d0 = (Some j, st)"
      unfolding r3_def by (blast dest: otherwise_SomeD)
    then show ?thesis
    proof cases
      case 1
      then show ?thesis by (rule s2)
    next
      case 2
      from 2(2) obtain t1 n1 d1 where a: "star s i n0 d0 = (Some t1, n1, d1)"
        and b: "RE_prime s t1 n1 d1 = (Some j, st)"
        unfolding RE_prime_alt_simps by (blast dest: try2_SomeD)
      from "2.hyps"(5) [OF x_def e1 e2 2(1) [symmetric] refl refl a [symmetric] refl refl] b
      have "t1 < j \<and> j \<le> length s" by blast
      with star_Some [OF a] show ?thesis by simp
    qed
  qed
  have s4: "i < j \<and> j \<le> length s" if "r4 = (Some j, st)" for j st
  proof -
    from that consider "r3 = (Some j, st)"
      | n0 d0 where "r3 = (None, n0, d0)" "RE_prime_alt s 4 i n0 d0 = (Some j, st)"
      unfolding r4_def by (blast dest: otherwise_SomeD)
    then show ?thesis
    proof cases
      case 1
      then show ?thesis by (rule s3)
    next
      case 2
      from 2(2) obtain t1 n1 d1 where a: "RE s i n0 d0 = (Some t1, n1, d1)"
        and b: "RE_prime s t1 n1 d1 = (Some j, st)"
        unfolding RE_prime_alt_simps by (blast dest: try2_SomeD)
      from "2.hyps"(6) [OF x_def e1 e2 e3 2(1) [symmetric] refl refl] a
      have a': "i < t1 \<and> t1 \<le> length s" by blast
      from "2.hyps"(7) [OF x_def e1 e2 e3 2(1) [symmetric] refl refl a [symmetric] refl refl] b
      have "t1 < j \<and> j \<le> length s" by blast
      with a' show ?thesis by simp
    qed
  qed
  have s5: "i < j \<and> j \<le> length s" if "r5 = (Some j, st)" for j st
  proof -
    from that consider "r4 = (Some j, st)"
      | n0 d0 where "r4 = (None, n0, d0)" "RE s i n0 d0 = (Some j, st)"
      unfolding r5_def RE_prime_alt_simps by (blast dest: otherwise_SomeD)
    then show ?thesis
    proof cases
      case 1
      then show ?thesis by (rule s4)
    next
      case 2
      from "2.hyps"(8) [OF x_def e1 e2 e3 e4 2(1) [symmetric] refl refl] 2(2)
      show ?thesis by blast
    qed
  qed
  have s6: "i < j \<and> j \<le> length s" if "r6 = (Some j, st)" for j st
  proof -
    from that consider "r5 = (Some j, st)"
      | n0 d0 where "r5 = (None, n0, d0)" "star s i n0 d0 = (Some j, st)"
      unfolding r6_def RE_prime_alt_simps by (blast dest: otherwise_SomeD)
    then show ?thesis
      by cases (auto dest: s5 star_Some)
  qed
  have "RE_prime s i p d = finish p r6"
    unfolding RE_prime_dom_unfold [OF "2.hyps"(1)] first_of_def r6_def r5_def r4_def r3_def
      r2_def r1_def x_def ..
  then show ?case
    by (auto dest!: finish_SomeD s6)
qed

text \<open>
  The rank of a call: twice the number of characters left, plus one for \<open>RE_prime\<close>
  (which may call \<open>RE\<close> at its own position). Every recursive call has a smaller rank.
\<close>

definition rank :: "(string \<times> nat \<times> Node \<times> nat) + (string \<times> nat \<times> Node \<times> nat) \<Rightarrow> nat" where
  "rank x =
     (case x of
        Inl (s, i, p, d) \<Rightarrow> 2 * (length s - i)
      | Inr (s, i, p, d) \<Rightarrow> 2 * (length s - i) + 1)"

lemmas terminal_Some_sym =
  epsilon_Some [OF sym] symbol_Some [OF sym] lpar_Some [OF sym]
  rpar_Some [OF sym] star_Some [OF sym] plus_tok_Some [OF sym]

lemmas progress_dom_sym =
  progress_dom(1) [rule_format, OF _ sym] progress_dom(2) [rule_format, OF _ sym]

lemma RE_RE_prime_total: "All RE_RE_prime_dom"
proof (relation "measure rank")
  show "wf (measure rank)" by simp
qed (auto simp: rank_def dest!: terminal_Some_sym dest: progress_dom_sym)

termination RE
  by (rule RE_RE_prime_total)

declare RE.simps [simp del] RE_prime.simps [simp del]

lemma RE_unfold: "RE s i p d = finish p (first_of (RE_alt s) i (node_init ''RE'') d)"
  by (rule RE_dom_unfold) (simp add: RE_RE_prime_total [rule_format])

lemma RE_prime_unfold:
  "RE_prime s i p d = finish p (first_of (RE_prime_alt s) i (node_init RE_prime_label) d)"
  by (rule RE_prime_dom_unfold) (simp add: RE_RE_prime_total [rule_format])

lemma RE_progress: "RE s i p d = (Some j, st) \<Longrightarrow> i < j \<and> j \<le> length s"
  using progress_dom(1) [of s i p d] RE_RE_prime_total by blast

lemma RE_prime_progress: "RE_prime s i p d = (Some j, st) \<Longrightarrow> i < j \<and> j \<le> length s"
  using progress_dom(2) [of s i p d] RE_RE_prime_total by blast

section \<open>The entry point\<close>

text \<open>
  \<^verbatim>\<open>parse\<close>: the root is initialised with the label \<^verbatim>\<open>"Root"\<close>, \<open>RE\<close> runs from cursor 0, and
  the result is \<^verbatim>\<open>parse_result && reg_expr[end_index] == '\0'\<close>. The model returns the
  root as \<^verbatim>\<open>parse\<close> leaves it and the number of children dropped on the way.
\<close>

definition parse :: "string \<Rightarrow> bool \<times> Node \<times> nat" where
  "parse reg_expr =
     (case RE reg_expr 0 (node_init ''Root'') 0 of
        (None, p_node, d) \<Rightarrow> (False, p_node, d)
      | (Some end_index, p_node, d) \<Rightarrow> (char_at reg_expr end_index = CHR 0x00, p_node, d))"

section \<open>Nodes whose children fill a prefix of the slots\<close>

text \<open>
  \<open>present cs\<close> are the children attached in the slots \<open>cs\<close>, in slot order, and
  \<open>attached p\<close> those of the node \<open>p\<close>. \<open>mk lbl cs\<close> is the node labelled \<open>lbl\<close> whose
  children \<open>cs\<close> occupy the first slots; a node is \<open>compact\<close> when it has this form
  (the data model's invariant: no gap before an attached child).
\<close>

definition present :: "Node option list \<Rightarrow> Node list" where
  "present cs = concat (map (\<lambda>x. case x of None \<Rightarrow> [] | Some c \<Rightarrow> [c]) cs)"

definition attached :: "Node \<Rightarrow> Node list" where
  "attached p = present (childs p)"

definition mk :: "string \<Rightarrow> Node list \<Rightarrow> Node" where
  "mk lbl cs = Node lbl (map Some cs @ replicate (MAX_CHILDS - length cs) None)"

definition compact :: "Node \<Rightarrow> bool" where
  "compact p \<longleftrightarrow> length (attached p) \<le> MAX_CHILDS \<and> p = mk (content p) (attached p)"

lemma present_simps [simp]:
  "present [] = []"
  "present (None # cs) = present cs"
  "present (Some c # cs) = c # present cs"
  "present (cs @ cs') = present cs @ present cs'"
  by (simp_all add: present_def)

lemma present_map_Some [simp]: "present (map Some cs) = cs"
  by (induction cs) simp_all

lemma present_replicate_None [simp]: "present (replicate k None) = []"
  by (induction k) simp_all

lemma attached_mk [simp]: "attached (mk lbl cs) = cs"
  by (simp add: attached_def mk_def)

lemma content_mk [simp]: "content (mk lbl cs) = lbl"
  by (simp add: mk_def)

lemma childs_mk: "childs (mk lbl cs) = map Some cs @ replicate (MAX_CHILDS - length cs) None"
  by (simp add: mk_def)

lemma compact_mk [simp]: "length cs \<le> MAX_CHILDS \<Longrightarrow> compact (mk lbl cs)"
  by (simp add: compact_def)

lemma node_init_mk: "node_init lbl = mk lbl []"
  by (simp add: node_init_def mk_def)

lemma add_child_loop_mk:
  "length cs < MAX_CHILDS \<Longrightarrow> i \<le> length cs \<Longrightarrow>
     add_child_loop i (map Some cs @ replicate (MAX_CHILDS - length cs) None) c =
       Some (map Some (cs @ [c]) @ replicate (MAX_CHILDS - Suc (length cs)) None)"
proof (induction "length cs - i" arbitrary: i)
  case 0
  then have i: "i = length cs" by simp
  have "MAX_CHILDS - length cs = Suc (MAX_CHILDS - Suc (length cs))"
    using 0 by simp
  then show ?case
    using 0 by (subst add_child_loop.simps) (simp add: i nth_append list_update_append)
next
  case (Suc k)
  then have "i < length cs" by simp
  with Suc show ?case
    by (subst add_child_loop.simps) (simp add: nth_append)
qed

lemma node_add_child_mk:
  "length cs < MAX_CHILDS \<Longrightarrow> node_add_child (mk lbl cs) c d = (mk lbl (cs @ [c]), d)"
  by (simp add: node_add_child_def mk_def add_child_loop_mk)

text \<open>
  The rollback loop on any array of slots: with \<open>1 \<le> n\<close> and at least \<open>n\<close> children
  attached below slot \<open>m\<close>, the loop stops at the slot \<open>k\<close> of the \<open>n\<close>-th attached child
  counted from the end: slots from \<open>k\<close> on are empty afterwards, slots below \<open>k\<close> are
  as before.
\<close>

lemma free_last_loop_spec:
  "m \<le> length cs \<Longrightarrow> 1 \<le> n \<Longrightarrow> n \<le> int (length (present (take m cs))) \<Longrightarrow>
     \<exists>k<m. cs ! k \<noteq> None \<and> int (length (present (drop k (take m cs)))) = n
       \<and> free_last_loop m cs n = take k cs @ replicate (m - k) None @ drop m cs"
proof (induction m arbitrary: cs n)
  case 0
  then show ?case by simp
next
  case (Suc m)
  then have m: "m < length cs" by simp
  have tk: "take (Suc m) cs = take m cs @ [cs ! m]"
    using m by (simp add: take_Suc_conv_app_nth)
  have dr: "drop m cs = cs ! m # drop (Suc m) cs"
    using m by (simp add: Cons_nth_drop_Suc)
  show ?case
  proof (cases "cs ! m")
    case None
    from Suc.prems have "n \<le> int (length (present (take m cs)))"
      by (simp add: tk None)
    with Suc.IH [of cs n] Suc.prems m obtain k where k: "k < m" "cs ! k \<noteq> None"
      "int (length (present (drop k (take m cs)))) = n"
      "free_last_loop m cs n = take k cs @ replicate (m - k) None @ drop m cs"
      by auto
    have "free_last_loop (Suc m) cs n = free_last_loop m cs n"
      using Suc.prems None by simp
    also have "\<dots> = take k cs @ replicate (Suc m - k) None @ drop (Suc m) cs"
      using k(1) by (simp add: k(4) dr None Suc_diff_le replicate_append_same)
    finally show ?thesis
      using k m by (intro exI [of _ k]) (simp add: tk None)
  next
    case (Some c)
    show ?thesis
    proof (cases "n = 1")
      case True
      have "free_last_loop (Suc m) cs n = cs[m := None]"
        using True Some by simp
      also have "\<dots> = take m cs @ replicate (Suc m - m) None @ drop (Suc m) cs"
        using m by (simp add: upd_conv_take_nth_drop)
      finally show ?thesis
        using True Some m by (intro exI [of _ m]) (simp add: tk)
    next
      case False
      have len: "m \<le> length (cs[m := None])" using m by simp
      have n1: "1 \<le> n - 1" using False Suc.prems by simp
      have n2: "n - 1 \<le> int (length (present (take m (cs[m := None]))))"
        using Suc.prems by (simp add: tk Some)
      from Suc.IH [OF len n1 n2] obtain k where k: "k < m" "cs[m := None] ! k \<noteq> None"
        "int (length (present (drop k (take m (cs[m := None]))))) = n - 1"
        "free_last_loop m (cs[m := None]) (n - 1) =
           take k (cs[m := None]) @ replicate (m - k) None @ drop m (cs[m := None])"
        by auto
      have "free_last_loop (Suc m) cs n = free_last_loop m (cs[m := None]) (n - 1)"
        using False Some by simp
      also have "\<dots> = take k cs @ replicate (Suc m - k) None @ drop (Suc m) cs"
        using k(1) m
        by (simp add: k(4) drop_update_swap Suc_diff_le replicate_append_same dr)
      finally show ?thesis
        using k m by (intro exI [of _ k]) (simp add: tk Some)
    qed
  qed
qed

lemma node_free_last_childs_mk:
  assumes "1 \<le> j" "j \<le> length cs" "length cs \<le> MAX_CHILDS"
  shows "node_free_last_childs (mk lbl cs) (int j) = mk lbl (take (length cs - j) cs)"
proof -
  let ?sl = "map Some cs @ replicate (MAX_CHILDS - length cs) None"
  have len: "length ?sl = MAX_CHILDS" using assms by simp
  from free_last_loop_spec [of MAX_CHILDS ?sl "int j"] assms obtain k where
    k: "k < MAX_CHILDS" "?sl ! k \<noteq> None"
    "int (length (present (drop k (take MAX_CHILDS ?sl)))) = int j"
    "free_last_loop MAX_CHILDS ?sl (int j) = take k ?sl @ replicate (MAX_CHILDS - k) None @ drop MAX_CHILDS ?sl"
    by auto
  from k(1,2) assms have kl: "k < length cs"
    by (cases "k < length cs") (simp_all add: nth_append)
  from k(3) kl assms have kj: "k = length cs - j"
    by (simp add: drop_map)
  have "free_last_loop MAX_CHILDS ?sl (int j) = map Some (take k cs) @ replicate (MAX_CHILDS - k) None"
    using kl assms by (simp add: k(4) take_map)
  then show ?thesis
    using kl assms by (simp add: node_free_last_childs_def mk_def kj min_def)
qed

section \<open>What a recognizer does to the tree\<close>

text \<open>
  \<open>consumed s i j\<close> is the input between the cursors \<open>i\<close> and \<open>j\<close>. \<open>yield\<close>
  concatenates the labels of the leaves of a tree from left to right, a leaf being a
  node with no attached child. \<open>wf_tree\<close>: every node of the tree is compact.
\<close>

definition consumed :: "string \<Rightarrow> nat \<Rightarrow> nat \<Rightarrow> string" where
  "consumed s i j = take (j - i) (drop i s)"

fun yield :: "Node \<Rightarrow> string" where
  "yield (Node lbl cs) =
     (if present cs = [] then lbl
      else concat (map (\<lambda>x. case x of None \<Rightarrow> [] | Some c \<Rightarrow> yield c) cs))"

fun wf_tree :: "Node \<Rightarrow> bool" where
  "wf_tree (Node lbl cs) =
     (compact (Node lbl cs) \<and> (\<forall>x\<in>set cs. case x of None \<Rightarrow> True | Some c \<Rightarrow> wf_tree c))"

text \<open>
  \<open>post\<close> is the outcome expected of a recognizer started at cursor \<open>i\<close> on the node
  \<open>mk lbl cs\<close> with the counter \<open>d\<close>: on failure the node and the counter are as
  before; on success the cursor has advanced inside the input, no child was dropped,
  and between \<open>lo\<close> and \<open>hi\<close> well-formed subtrees were appended whose leaves spell
  the consumed input. \<open>tidy s A lo hi i\<close>: the recognizer \<open>A\<close> meets \<open>post\<close> on every
  compact node with \<open>hi\<close> free slots.
\<close>

definition post :: "string \<Rightarrow> nat \<Rightarrow> nat \<Rightarrow> nat \<Rightarrow> string \<Rightarrow> Node list \<Rightarrow> nat \<Rightarrow> result \<Rightarrow> bool" where
  "post s lo hi i lbl cs d r =
     (case r of
        (None, n', d') \<Rightarrow> n' = mk lbl cs \<and> d' = d
      | (Some t, n', d') \<Rightarrow>
          d' = d \<and> i < t \<and> t \<le> length s \<and>
          (\<exists>ks. lo \<le> length ks \<and> length ks \<le> hi \<and> n' = mk lbl (cs @ ks)
             \<and> (\<forall>k\<in>set ks. wf_tree k) \<and> concat (map yield ks) = consumed s i t))"

definition tidy :: "string \<Rightarrow> recog \<Rightarrow> nat \<Rightarrow> nat \<Rightarrow> nat \<Rightarrow> bool" where
  "tidy s A lo hi i \<longleftrightarrow>
     (\<forall>lbl cs d. length cs + hi \<le> MAX_CHILDS \<longrightarrow> post s lo hi i lbl cs d (A i (mk lbl cs) d))"

lemma consumed_single: "i < length s \<Longrightarrow> consumed s i (Suc i) = [s ! i]"
  by (simp add: consumed_def take_Suc_conv_app_nth [of 0] hd_drop_conv_nth take_Suc)

lemma consumed_append: "i \<le> j \<Longrightarrow> j \<le> k \<Longrightarrow> consumed s i j @ consumed s j k = consumed s i k"
proof -
  assume a: "i \<le> j" "j \<le> k"
  then have "k - i = (j - i) + (k - j)" by simp
  then have "take (k - i) (drop i s) = take (j - i) (drop i s) @ take (k - j) (drop (j - i) (drop i s))"
    by (simp only: take_add)
  with a show ?thesis by (simp add: consumed_def)
qed

lemma yield_mk:
  "yield (mk lbl ks) = (if ks = [] then lbl else concat (map yield ks))"
proof -
  have "concat (map (\<lambda>x. case x of None \<Rightarrow> [] | Some c \<Rightarrow> yield c) (replicate k None)) = []" for k
    by (induction k) simp_all
  then show ?thesis
    by (simp add: mk_def o_def)
qed

lemma wf_tree_mk: "wf_tree (mk lbl ks) \<longleftrightarrow> length ks \<le> MAX_CHILDS \<and> (\<forall>k\<in>set ks. wf_tree k)"
proof -
  have "compact (Node lbl (map Some ks @ replicate (MAX_CHILDS - length ks) None)) \<longleftrightarrow> length ks \<le> MAX_CHILDS"
    by (simp add: compact_def attached_def mk_def)
  then show ?thesis
    by (simp add: mk_def ball_Un)
qed

lemma post_leaf:
  assumes "length cs + 1 \<le> MAX_CHILDS" "i < length s" "s ! i = c"
  shows "post s 1 1 i lbl cs d (case node_add_child (mk lbl cs) (node_init [c]) d of (p, d') \<Rightarrow> (Some (i + 1), p, d'))"
proof -
  have "node_add_child (mk lbl cs) (node_init [c]) d = (mk lbl (cs @ [mk [c] []]), d)"
    using assms by (simp add: node_add_child_mk node_init_mk)
  moreover have "wf_tree (mk [c] [])" by (simp add: wf_tree_mk)
  moreover have "concat (map yield [mk [c] []]) = consumed s i (Suc i)"
    using assms by (simp add: yield_mk consumed_single)
  ultimately show ?thesis
    using assms by (auto simp: post_def intro!: exI [of _ "[mk [c] []]"])
qed

lemma post_None: "post s lo hi i lbl cs d (None, mk lbl cs, d)"
  by (simp add: post_def)

lemma epsilon_tidy: "tidy s (epsilon s) 1 1 i"
  unfolding tidy_def epsilon_def
  using post_leaf [of _ i s "CHR ''#''"]
  by (auto simp: post_None char_at_def split: if_splits)

lemma symbol_tidy: "tidy s (symbol s) 1 1 i"
  unfolding tidy_def symbol_def
  using post_leaf [of _ i s "s ! i"]
  by (auto simp: post_None char_at_def is_symbol_char_def split: if_splits)

lemma lpar_tidy: "tidy s (lpar s) 1 1 i"
  unfolding tidy_def lpar_def
  using post_leaf [of _ i s "CHR ''(''"]
  by (auto simp: post_None char_at_def split: if_splits)

lemma rpar_tidy: "tidy s (rpar s) 1 1 i"
  unfolding tidy_def rpar_def
  using post_leaf [of _ i s "CHR '')''"]
  by (auto simp: post_None char_at_def split: if_splits)

lemma star_tidy: "tidy s (star s) 1 1 i"
  unfolding tidy_def star_def
  using post_leaf [of _ i s "CHR ''*''"]
  by (auto simp: post_None char_at_def split: if_splits)

lemma plus_tok_tidy: "tidy s (plus_tok s) 1 1 i"
  unfolding tidy_def plus_tok_def
  using post_leaf [of _ i s "CHR ''+''"]
  by (auto simp: post_None char_at_def split: if_splits)

lemma post_SomeD:
  "post s lo hi i lbl cs d (Some t, n', d') \<Longrightarrow>
     d' = d \<and> i < t \<and> t \<le> length s \<and>
     (\<exists>ks. lo \<le> length ks \<and> length ks \<le> hi \<and> n' = mk lbl (cs @ ks)
        \<and> (\<forall>k\<in>set ks. wf_tree k) \<and> concat (map yield ks) = consumed s i t)"
  by (simp add: post_def)

lemma post_NoneD: "post s lo hi i lbl cs d (None, n', d') \<Longrightarrow> n' = mk lbl cs \<and> d' = d"
  by (simp add: post_def)

lemma post_SomeI:
  "i < t \<Longrightarrow> t \<le> length s \<Longrightarrow> lo \<le> length ks \<Longrightarrow> length ks \<le> hi \<Longrightarrow>
     (\<forall>k\<in>set ks. wf_tree k) \<Longrightarrow> concat (map yield ks) = consumed s i t \<Longrightarrow>
     post s lo hi i lbl cs d (Some t, mk lbl (cs @ ks), d)"
  by (auto simp: post_def)

lemma post_weaken:
  assumes "post s lo hi i lbl cs d r" "lo' \<le> lo" "hi \<le> hi'"
  shows "post s lo' hi' i lbl cs d r"
proof (cases r)
  case (fields a n' d')
  show ?thesis
  proof (cases a)
    case None
    with assms fields show ?thesis by (simp add: post_def)
  next
    case (Some t)
    with assms(1) fields obtain ks where "d' = d" "i < t" "t \<le> length s" "lo \<le> length ks"
      "length ks \<le> hi" "n' = mk lbl (cs @ ks)" "\<forall>k\<in>set ks. wf_tree k"
      "concat (map yield ks) = consumed s i t"
      by (auto dest!: post_SomeD)
    with assms(2,3) show ?thesis
      unfolding fields Some by (auto intro!: post_SomeI)
  qed
qed

lemma tidy_weaken:
  "tidy s A lo hi i \<Longrightarrow> lo' \<le> lo \<Longrightarrow> hi \<le> hi' \<Longrightarrow> tidy s A lo' hi' i"
  unfolding tidy_def
  by (meson post_weaken add_left_mono order_trans)

lemma try3_as_try2: "try3 A B C k2 k1 = try2 (try2 A B k1) C k2"
  by (intro ext) (simp add: try3_def try2_def split: prod.splits option.splits)

lemma try4_as_try2: "try4 A B C D k3 k2 k1 = try2 (try3 A B C k2 k1) D k3"
  by (intro ext) (simp add: try4_def try3_def try2_def split: prod.splits option.splits)

lemma try2_tidy:
  assumes A: "tidy s A a a i" and a: "1 \<le> a" "k = int a"
    and B: "\<And>t. i < t \<Longrightarrow> t \<le> length s \<Longrightarrow> tidy s B 1 1 t"
  shows "tidy s (try2 A B k) (Suc a) (Suc a) i"
  unfolding tidy_def
proof (intro allI impI)
  fix lbl :: string and cs :: "Node list" and d :: nat
  assume len: "length cs + Suc a \<le> MAX_CHILDS"
  then have lenA: "length cs + a \<le> MAX_CHILDS" by simp
  from A lenA have pA: "post s a a i lbl cs d (A i (mk lbl cs) d)"
    by (simp add: tidy_def)
  show "post s (Suc a) (Suc a) i lbl cs d (try2 A B k i (mk lbl cs) d)"
  proof (cases "A i (mk lbl cs) d")
    case (fields r1 n1 d1)
    show ?thesis
    proof (cases r1)
      case None
      with pA fields show ?thesis
        by (simp add: try2_def post_def)
    next
      case (Some t1)
      with pA fields obtain ks where 1: "d1 = d" "i < t1" "t1 \<le> length s" "length ks = a"
        "n1 = mk lbl (cs @ ks)" "\<forall>k\<in>set ks. wf_tree k"
        "concat (map yield ks) = consumed s i t1"
        by (auto dest!: post_SomeD)
      from B [OF 1(2,3)] len 1(4)
      have pB: "post s 1 1 t1 lbl (cs @ ks) d (B t1 (mk lbl (cs @ ks)) d)"
        by (simp add: tidy_def)
      show ?thesis
      proof (cases "B t1 (mk lbl (cs @ ks)) d")
        case fieldsB: (fields r2 n2 d2)
        show ?thesis
        proof (cases r2)
          case None
          with pB fieldsB have 2: "n2 = mk lbl (cs @ ks)" "d2 = d"
            by (auto dest!: post_NoneD)
          have "node_free_last_childs (mk lbl (cs @ ks)) (int a) = mk lbl cs"
            using node_free_last_childs_mk [of a "cs @ ks" lbl] a(1) 1(4) len by simp
          with fields Some 1 fieldsB None 2 a(2) show ?thesis
            by (simp add: try2_def post_def)
        next
          case Some2: (Some t)
          with pB fieldsB obtain ks' where 2: "d2 = d" "t1 < t" "t \<le> length s"
            "length ks' = 1" "n2 = mk lbl ((cs @ ks) @ ks')" "\<forall>k\<in>set ks'. wf_tree k"
            "concat (map yield ks') = consumed s t1 t"
            by (auto dest!: post_SomeD)
          have "concat (map yield (ks @ ks')) = consumed s i t"
            using 1(2,7) 2(2,7) consumed_append [of i t1 t s] by simp
          with 1 2 have "post s (Suc a) (Suc a) i lbl cs d (Some t, mk lbl (cs @ (ks @ ks')), d)"
            by (intro post_SomeI) auto
          with fields Some 1 fieldsB Some2 2 show ?thesis
            by (simp add: try2_def)
        qed
      qed
    qed
  qed
qed

lemma otherwise_post:
  assumes "post s lo hi i lbl cs d r" "post s lo hi i lbl cs d (B i (mk lbl cs) d)"
  shows "post s lo hi i lbl cs d (otherwise r B i)"
proof (cases r)
  case (fields a n' d')
  show ?thesis
  proof (cases a)
    case None
    with assms fields show ?thesis
      by (auto simp: otherwise_def dest!: post_NoneD)
  next
    case (Some t)
    with assms(1) fields show ?thesis
      by (simp add: otherwise_def)
  qed
qed

lemma first_of_tidy:
  assumes "\<And>k. tidy s (alt k) lo hi i"
  shows "tidy s (first_of alt) lo hi i"
  using assms unfolding tidy_def first_of_def
  by (intro allI impI otherwise_post) simp_all

lemma finish_tidy:
  assumes "tidy s alts 1 MAX_CHILDS i"
  shows "tidy s (\<lambda>i p d. finish p (alts i (node_init lbl') d)) 1 1 i"
  unfolding tidy_def
proof (intro allI impI)
  fix lbl :: string and cs :: "Node list" and d :: nat
  assume len: "length cs + 1 \<le> MAX_CHILDS"
  from assms have pA: "post s 1 MAX_CHILDS i lbl' [] d (alts i (mk lbl' []) d)"
    by (simp add: tidy_def)
  show "post s 1 1 i lbl cs d (finish (mk lbl cs) (alts i (node_init lbl') d))"
  proof (cases "alts i (mk lbl' []) d")
    case (fields r n e)
    show ?thesis
    proof (cases r)
      case None
      with pA fields have 1: "n = mk lbl' []" "e = d"
        by (auto dest!: post_NoneD)
      have "node_free_last_childs (mk lbl (cs @ [mk lbl' []])) (int 1) = mk lbl cs"
        using node_free_last_childs_mk [of 1 "cs @ [mk lbl' []]" lbl] len by simp
      with fields None 1 len show ?thesis
        by (simp add: finish_def node_init_mk node_add_child_mk post_def)
    next
      case (Some t)
      with pA fields obtain ks where 1: "e = d" "i < t" "t \<le> length s" "1 \<le> length ks"
        "length ks \<le> MAX_CHILDS" "n = mk lbl' ks" "\<forall>k\<in>set ks. wf_tree k"
        "concat (map yield ks) = consumed s i t"
        by (auto dest!: post_SomeD)
      from 1 have "ks \<noteq> []" by auto
      with 1 have "post s 1 1 i lbl cs d (Some t, mk lbl (cs @ [mk lbl' ks]), d)"
        by (intro post_SomeI) (auto simp: wf_tree_mk yield_mk)
      with fields Some 1 len show ?thesis
        by (simp add: finish_def node_init_mk node_add_child_mk)
    qed
  qed
qed

lemma try2_tidy1:
  assumes "tidy s A 1 1 i" "\<And>t. i < t \<Longrightarrow> t \<le> length s \<Longrightarrow> tidy s B 1 1 t"
  shows "tidy s (try2 A B 1) 2 2 i"
  using try2_tidy [where a = 1 and k = 1 and s = s and A = A and B = B and i = i] assms
  by (simp add: numeral_2_eq_2)

lemma try3_tidy:
  assumes "tidy s A 1 1 i" "\<And>t. i < t \<Longrightarrow> t \<le> length s \<Longrightarrow> tidy s B 1 1 t"
    "\<And>t. i < t \<Longrightarrow> t \<le> length s \<Longrightarrow> tidy s C 1 1 t"
  shows "tidy s (try3 A B C 2 1) 3 3 i"
  unfolding try3_as_try2
  using try2_tidy [where a = 2 and k = 2 and s = s and A = "try2 A B 1" and B = C and i = i]
    try2_tidy1 [OF assms(1,2)] assms(3)
  by (simp add: numeral_3_eq_3)

lemma try4_tidy:
  assumes "tidy s A 1 1 i" "\<And>t. i < t \<Longrightarrow> t \<le> length s \<Longrightarrow> tidy s B 1 1 t"
    "\<And>t. i < t \<Longrightarrow> t \<le> length s \<Longrightarrow> tidy s C 1 1 t"
    "\<And>t. i < t \<Longrightarrow> t \<le> length s \<Longrightarrow> tidy s D 1 1 t"
  shows "tidy s (try4 A B C D 3 2 1) 4 4 i"
  unfolding try4_as_try2
  using try2_tidy [where a = 3 and k = 3 and s = s and A = "try3 A B C 2 1" and B = D and i = i]
    try3_tidy [OF assms(1,2,3)] assms(4)
  by (simp add: eval_nat_numeral)

lemma RE_alt_tidy:
  assumes RE: "\<And>t. i < t \<Longrightarrow> t \<le> length s \<Longrightarrow> tidy s (RE s) 1 1 t"
    and RE': "\<And>t. i < t \<Longrightarrow> t \<le> length s \<Longrightarrow> tidy s (RE_prime s) 1 1 t"
  shows "tidy s (RE_alt s k) 1 MAX_CHILDS i"
proof -
  have 1: "tidy s (try2 (epsilon s) (RE_prime s) 1) 2 2 i"
    by (rule try2_tidy1) (fast intro: epsilon_tidy RE')+
  have 2: "tidy s (try2 (symbol s) (RE_prime s) 1) 2 2 i"
    by (rule try2_tidy1) (fast intro: symbol_tidy RE')+
  have 3: "tidy s (try4 (lpar s) (RE s) (rpar s) (RE_prime s) 3 2 1) 4 4 i"
    by (rule try4_tidy) (fast intro: lpar_tidy rpar_tidy RE RE')+
  have 4: "tidy s (try3 (lpar s) (RE s) (rpar s) 2 1) 3 3 i"
    by (rule try3_tidy) (fast intro: lpar_tidy rpar_tidy RE)+
  show ?thesis
    unfolding RE_alt_def RE_alts_def
    using 1 2 3 4 epsilon_tidy [of s i] symbol_tidy [of s i]
    by (auto intro: tidy_weaken simp: MAX_CHILDS_def)
qed

lemma RE_prime_alt_tidy:
  assumes RE0: "tidy s (RE s) 1 1 i"
    and RE: "\<And>t. i < t \<Longrightarrow> t \<le> length s \<Longrightarrow> tidy s (RE s) 1 1 t"
    and RE': "\<And>t. i < t \<Longrightarrow> t \<le> length s \<Longrightarrow> tidy s (RE_prime s) 1 1 t"
  shows "tidy s (RE_prime_alt s k) 1 MAX_CHILDS i"
proof -
  have 1: "tidy s (try3 (plus_tok s) (RE s) (RE_prime s) 2 1) 3 3 i"
    by (rule try3_tidy) (fast intro: plus_tok_tidy RE RE')+
  have 2: "tidy s (try2 (plus_tok s) (RE s) 1) 2 2 i"
    by (rule try2_tidy1) (fast intro: plus_tok_tidy RE)+
  have 3: "tidy s (try2 (star s) (RE_prime s) 1) 2 2 i"
    by (rule try2_tidy1) (fast intro: star_tidy RE')+
  have 4: "tidy s (try2 (RE s) (RE_prime s) 1) 2 2 i"
    by (rule try2_tidy1) (fast intro: RE0 RE')+
  show ?thesis
    unfolding RE_prime_alt_def RE_prime_alts_def
    using 1 2 3 4 RE0 star_tidy [of s i]
    by (auto intro: tidy_weaken simp: MAX_CHILDS_def)
qed

lemma RE_tidy_both: "tidy s (RE s) 1 1 i \<and> tidy s (RE_prime s) 1 1 i"
proof (induction i rule: measure_induct_rule [where f = "\<lambda>i. Suc (length s) - i"])
  case (less i)
  have RE: "tidy s (RE s) 1 1 t" and RE': "tidy s (RE_prime s) 1 1 t"
    if "i < t" "t \<le> length s" for t
    using less [of t] that by auto
  have "tidy s (\<lambda>i p d. finish p (first_of (RE_alt s) i (node_init ''RE'') d)) 1 1 i"
    by (intro finish_tidy first_of_tidy RE_alt_tidy RE RE')
  then have RE0: "tidy s (RE s) 1 1 i"
    by (simp add: tidy_def RE_unfold)
  have "tidy s (\<lambda>i p d. finish p (first_of (RE_prime_alt s) i (node_init RE_prime_label) d)) 1 1 i"
    by (intro finish_tidy first_of_tidy RE_prime_alt_tidy RE0 RE RE')
  then have "tidy s (RE_prime s) 1 1 i"
    by (simp add: tidy_def RE_prime_unfold)
  with RE0 show ?case ..
qed

subsection \<open>The outcome of \<open>RE\<close>, \<open>RE_prime\<close> and \<open>parse\<close>\<close>

lemmas RE_tidy = conjunct1 [OF RE_tidy_both]
  and RE_prime_tidy = conjunct2 [OF RE_tidy_both]

lemma first_of_RE_alt_tidy: "tidy s (first_of (RE_alt s)) 1 MAX_CHILDS i"
  by (intro first_of_tidy RE_alt_tidy RE_tidy RE_prime_tidy)

lemma first_of_RE_prime_alt_tidy: "tidy s (first_of (RE_prime_alt s)) 1 MAX_CHILDS i"
  by (intro first_of_tidy RE_prime_alt_tidy RE_tidy RE_prime_tidy)

lemma finish_SomeE:
  assumes "tidy s alts 1 MAX_CHILDS i" "length cs < MAX_CHILDS"
    and "finish (mk lbl cs) (alts i (node_init lbl') d) = (Some t, p', d')"
  obtains ks where "ks \<noteq> []" "length ks \<le> MAX_CHILDS" "p' = mk lbl (cs @ [mk lbl' ks])"
    "\<forall>k\<in>set ks. wf_tree k" "concat (map yield ks) = consumed s i t" "d' = d"
    "i < t" "t \<le> length s"
proof -
  from assms(1) have pA: "post s 1 MAX_CHILDS i lbl' [] d (alts i (mk lbl' []) d)"
    by (simp add: tidy_def)
  from assms(3) obtain n e where r: "alts i (mk lbl' []) d = (Some t, n, e)"
    by (auto simp: node_init_mk dest!: finish_SomeD)
  with pA obtain ks where 1: "e = d" "i < t" "t \<le> length s" "1 \<le> length ks"
    "length ks \<le> MAX_CHILDS" "n = mk lbl' ks" "\<forall>k\<in>set ks. wf_tree k"
    "concat (map yield ks) = consumed s i t"
    by (auto dest!: post_SomeD)
  from assms(2,3) r 1 have "p' = mk lbl (cs @ [mk lbl' ks])" "d' = d"
    by (simp_all add: finish_def node_init_mk node_add_child_mk)
  with 1 show ?thesis
    by (intro that [of ks]) auto
qed

lemma RE_SomeE:
  assumes "length cs < MAX_CHILDS" "RE s i (mk lbl cs) d = (Some t, p', d')"
  obtains ks where "ks \<noteq> []" "length ks \<le> MAX_CHILDS" "p' = mk lbl (cs @ [mk ''RE'' ks])"
    "\<forall>k\<in>set ks. wf_tree k" "concat (map yield ks) = consumed s i t" "d' = d"
    "i < t" "t \<le> length s"
  using finish_SomeE [OF first_of_RE_alt_tidy assms(1) assms(2) [unfolded RE_unfold]]
  by blast

lemma RE_prime_SomeE:
  assumes "length cs < MAX_CHILDS" "RE_prime s i (mk lbl cs) d = (Some t, p', d')"
  obtains ks where "ks \<noteq> []" "length ks \<le> MAX_CHILDS"
    "p' = mk lbl (cs @ [mk RE_prime_label ks])"
    "\<forall>k\<in>set ks. wf_tree k" "concat (map yield ks) = consumed s i t" "d' = d"
    "i < t" "t \<le> length s"
  using finish_SomeE [OF first_of_RE_prime_alt_tidy assms(1) assms(2) [unfolded RE_prime_unfold]]
  by blast

lemma tidyD:
  "tidy s A lo hi i \<Longrightarrow> length cs + hi \<le> MAX_CHILDS \<Longrightarrow>
     post s lo hi i lbl cs d (A i (mk lbl cs) d)"
  by (simp add: tidy_def)

lemma RE_NoneD:
  assumes "length cs < MAX_CHILDS" "RE s i (mk lbl cs) d = (None, p', d')"
  shows "p' = mk lbl cs \<and> d' = d"
  using tidyD [OF RE_tidy, of cs s i lbl d] assms by (auto dest!: post_NoneD)

lemma RE_prime_NoneD:
  assumes "length cs < MAX_CHILDS" "RE_prime s i (mk lbl cs) d = (None, p', d')"
  shows "p' = mk lbl cs \<and> d' = d"
  using tidyD [OF RE_prime_tidy, of cs s i lbl d] assms by (auto dest!: post_NoneD)

lemma compactD: "compact p \<Longrightarrow> p = mk (content p) (attached p)"
  by (simp add: compact_def)

lemma parse_cases:
  obtains (failed) "RE s 0 (node_init ''Root'') 0 = (None, node_init ''Root'', 0)"
      "parse s = (False, node_init ''Root'', 0)"
  | (parsed) j ks where "RE s 0 (node_init ''Root'') 0 = (Some j, mk ''Root'' [mk ''RE'' ks], 0)"
      "parse s = (char_at s j = CHR 0x00, mk ''Root'' [mk ''RE'' ks], 0)"
      "ks \<noteq> []" "length ks \<le> MAX_CHILDS" "\<forall>k\<in>set ks. wf_tree k"
      "concat (map yield ks) = consumed s 0 j" "0 < j" "j \<le> length s"
proof (cases "RE s 0 (mk ''Root'' []) 0")
  case (fields r p' d')
  have len: "length ([] :: Node list) < MAX_CHILDS" by (simp add: MAX_CHILDS_def)
  show ?thesis
  proof (cases r)
    case None
    with fields RE_NoneD [OF len, of s 0 "''Root''" 0 p' d'] show ?thesis
      by (intro failed) (simp_all add: parse_def node_init_mk)
  next
    case (Some j)
    with fields have "RE s 0 (mk ''Root'' []) 0 = (Some j, p', d')" by simp
    from RE_SomeE [OF len this] obtain ks where "ks \<noteq> []" "length ks \<le> MAX_CHILDS"
      "p' = mk ''Root'' ([] @ [mk ''RE'' ks])"
      "\<forall>k\<in>set ks. wf_tree k" "concat (map yield ks) = consumed s 0 j" "d' = 0"
      "0 < j" "j \<le> length s"
      by metis
    with fields Some show ?thesis
      by (intro parsed [of j ks]) (simp_all add: parse_def node_init_mk)
  qed
qed

lemma cursor_at_end:
  assumes "CHR 0x00 \<notin> set s" "j \<le> length s" "char_at s j = CHR 0x00"
  shows "j = length s"
proof (rule ccontr)
  assume "j \<noteq> length s"
  with assms(2) have "j < length s" by simp
  with assms(3) have "s ! j = CHR 0x00" by (simp add: char_at_def)
  with \<open>j < length s\<close> assms(1) show False by (metis nth_mem)
qed

section \<open>The language of the grammar\<close>

text \<open>
  The header comment of the source gives the grammar the two variables implement, after
  the removal of left recursion:

  \<^verbatim>\<open>RE  ::= # | # RE' | symbol | symbol RE' | ( RE ) | ( RE ) RE'\<close>

  \<^verbatim>\<open>RE' ::= + RE | + RE RE' | RE | RE RE' | * | * RE'\<close>

  \<open>lang_RE\<close> and \<open>lang_RE_prime\<close> are the strings derivable from \<^verbatim>\<open>RE\<close> and \<^verbatim>\<open>RE'\<close>, one rule
  per production, a \<^verbatim>\<open>symbol\<close> being a character that the terminal \<^verbatim>\<open>symbol\<close> takes.
\<close>

inductive lang_RE :: "string \<Rightarrow> bool" and lang_RE_prime :: "string \<Rightarrow> bool" where
  RE_eps: "lang_RE [CHR ''#'']"
| RE_eps_prime: "lang_RE_prime w \<Longrightarrow> lang_RE (CHR ''#'' # w)"
| RE_sym: "is_symbol_char c \<Longrightarrow> lang_RE [c]"
| RE_sym_prime: "is_symbol_char c \<Longrightarrow> lang_RE_prime w \<Longrightarrow> lang_RE (c # w)"
| RE_par: "lang_RE u \<Longrightarrow> lang_RE (CHR ''('' # u @ [CHR '')''])"
| RE_par_prime: "lang_RE u \<Longrightarrow> lang_RE_prime w \<Longrightarrow> lang_RE (CHR ''('' # u @ CHR '')'' # w)"
| RE_prime_plus: "lang_RE u \<Longrightarrow> lang_RE_prime (CHR ''+'' # u)"
| RE_prime_plus_prime: "lang_RE u \<Longrightarrow> lang_RE_prime w \<Longrightarrow> lang_RE_prime (CHR ''+'' # u @ w)"
| RE_prime_RE: "lang_RE u \<Longrightarrow> lang_RE_prime u"
| RE_prime_RE_prime: "lang_RE u \<Longrightarrow> lang_RE_prime w \<Longrightarrow> lang_RE_prime (u @ w)"
| RE_prime_star: "lang_RE_prime [CHR ''*'']"
| RE_prime_star_prime: "lang_RE_prime w \<Longrightarrow> lang_RE_prime (CHR ''*'' # w)"

text \<open>
  \<open>accepts s A L i\<close>: whenever the recognizer \<open>A\<close>, started at cursor \<open>i\<close>, succeeds, it
  has moved the cursor forward inside the input and the characters it has consumed form a
  string of \<open>L\<close>. \<open>cat L1 L2\<close> is the concatenation of two languages.
\<close>

definition accepts :: "string \<Rightarrow> recog \<Rightarrow> (string \<Rightarrow> bool) \<Rightarrow> nat \<Rightarrow> bool" where
  "accepts s A L i \<longleftrightarrow>
     (\<forall>n d t st. A i n d = (Some t, st) \<longrightarrow> i < t \<and> t \<le> length s \<and> L (consumed s i t))"

lemma acceptsD:
  "accepts s A L i \<Longrightarrow> A i n d = (Some t, st) \<Longrightarrow> i < t \<and> t \<le> length s \<and> L (consumed s i t)"
  unfolding accepts_def by blast

definition cat :: "(string \<Rightarrow> bool) \<Rightarrow> (string \<Rightarrow> bool) \<Rightarrow> string \<Rightarrow> bool" where
  "cat L1 L2 w \<longleftrightarrow> (\<exists>u v. w = u @ v \<and> L1 u \<and> L2 v)"

lemma accepts_char:
  assumes "\<And>n d t st. A i n d = (Some t, st) \<Longrightarrow> t = Suc i \<and> i < length s \<and> P (s ! i)"
  shows "accepts s A (\<lambda>w. \<exists>c. P c \<and> w = [c]) i"
  unfolding accepts_def
proof (intro allI impI)
  fix n d t st
  assume "A i n d = (Some t, st)"
  from assms [OF this] show "i < t \<and> t \<le> length s \<and> (\<exists>c. P c \<and> consumed s i t = [c])"
    by (auto simp: consumed_single)
qed

lemma epsilon_accepts: "accepts s (epsilon s) (\<lambda>w. \<exists>c. c = CHR ''#'' \<and> w = [c]) i"
  by (rule accepts_char) (auto simp: epsilon_def char_at_def split: if_splits prod.splits)

lemma symbol_accepts: "accepts s (symbol s) (\<lambda>w. \<exists>c. is_symbol_char c \<and> w = [c]) i"
  by (rule accepts_char)
    (auto simp: symbol_def char_at_def is_symbol_char_def split: if_splits prod.splits)

lemma lpar_accepts: "accepts s (lpar s) (\<lambda>w. \<exists>c. c = CHR ''('' \<and> w = [c]) i"
  by (rule accepts_char) (auto simp: lpar_def char_at_def split: if_splits prod.splits)

lemma rpar_accepts: "accepts s (rpar s) (\<lambda>w. \<exists>c. c = CHR '')'' \<and> w = [c]) i"
  by (rule accepts_char) (auto simp: rpar_def char_at_def split: if_splits prod.splits)

lemma star_accepts: "accepts s (star s) (\<lambda>w. \<exists>c. c = CHR ''*'' \<and> w = [c]) i"
  by (rule accepts_char) (auto simp: star_def char_at_def split: if_splits prod.splits)

lemma plus_tok_accepts: "accepts s (plus_tok s) (\<lambda>w. \<exists>c. c = CHR ''+'' \<and> w = [c]) i"
  by (rule accepts_char) (auto simp: plus_tok_def char_at_def split: if_splits prod.splits)

lemma try2_accepts:
  assumes A: "accepts s A L1 i"
    and B: "\<And>t. i < t \<Longrightarrow> t \<le> length s \<Longrightarrow> accepts s B L2 t"
  shows "accepts s (try2 A B k) (cat L1 L2) i"
  unfolding accepts_def
proof (intro allI impI)
  fix n d t st
  assume "try2 A B k i n d = (Some t, st)"
  then obtain t1 n1 d1 where a: "A i n d = (Some t1, n1, d1)" and b: "B t1 n1 d1 = (Some t, st)"
    by (blast dest: try2_SomeD)
  from acceptsD [OF A a] have 1: "i < t1" "t1 \<le> length s" "L1 (consumed s i t1)"
    by simp_all
  from acceptsD [OF B [OF 1(1,2)] b] have 2: "t1 < t" "t \<le> length s" "L2 (consumed s t1 t)"
    by simp_all
  have "consumed s i t = consumed s i t1 @ consumed s t1 t"
    using 1(1) 2(1) by (simp add: consumed_append)
  with 1 2 show "i < t \<and> t \<le> length s \<and> cat L1 L2 (consumed s i t)"
    by (auto simp: cat_def)
qed

lemma try3_accepts:
  assumes "accepts s A L1 i"
    and "\<And>t. i < t \<Longrightarrow> t \<le> length s \<Longrightarrow> accepts s B L2 t"
    and "\<And>t. i < t \<Longrightarrow> t \<le> length s \<Longrightarrow> accepts s C L3 t"
  shows "accepts s (try3 A B C k2 k1) (cat (cat L1 L2) L3) i"
  unfolding try3_as_try2
  by (intro try2_accepts assms)

lemma try4_accepts:
  assumes "accepts s A L1 i"
    and "\<And>t. i < t \<Longrightarrow> t \<le> length s \<Longrightarrow> accepts s B L2 t"
    and "\<And>t. i < t \<Longrightarrow> t \<le> length s \<Longrightarrow> accepts s C L3 t"
    and "\<And>t. i < t \<Longrightarrow> t \<le> length s \<Longrightarrow> accepts s D L4 t"
  shows "accepts s (try4 A B C D k3 k2 k1) (cat (cat (cat L1 L2) L3) L4) i"
  unfolding try4_as_try2
  by (intro try2_accepts try3_accepts assms)

lemma accepts_weaken: "accepts s A L i \<Longrightarrow> (\<And>w. L w \<Longrightarrow> L' w) \<Longrightarrow> accepts s A L' i"
  unfolding accepts_def by blast

lemma first_of_accepts:
  assumes "\<And>k. accepts s (alt k) L i"
  shows "accepts s (first_of alt) L i"
  unfolding accepts_def
proof (intro allI impI)
  fix n d t st
  assume "first_of alt i n d = (Some t, st)"
  then obtain k n' d' where "alt k i n' d' = (Some t, st)"
    unfolding first_of_def by (blast dest: otherwise_SomeD)
  with assms [of k] show "i < t \<and> t \<le> length s \<and> L (consumed s i t)"
    by (blast dest: acceptsD)
qed

lemma finish_accepts:
  assumes "accepts s alts L i"
  shows "accepts s (\<lambda>i p d. finish p (alts i (node_init lbl) d)) L i"
  using assms unfolding accepts_def
  by (blast dest: finish_SomeD)

lemma RE_alt_accepts:
  assumes RE: "\<And>t. i < t \<Longrightarrow> t \<le> length s \<Longrightarrow> accepts s (RE s) lang_RE t"
    and RE': "\<And>t. i < t \<Longrightarrow> t \<le> length s \<Longrightarrow> accepts s (RE_prime s) lang_RE_prime t"
  shows "accepts s (RE_alt s k) lang_RE i"
proof -
  have 1: "accepts s (try2 (epsilon s) (RE_prime s) 1) lang_RE i"
    by (rule accepts_weaken, rule try2_accepts [OF epsilon_accepts RE'])
      (auto simp: cat_def intro: lang_RE_lang_RE_prime.intros)
  have 2: "accepts s (try2 (symbol s) (RE_prime s) 1) lang_RE i"
    by (rule accepts_weaken, rule try2_accepts [OF symbol_accepts RE'])
      (auto simp: cat_def intro: lang_RE_lang_RE_prime.intros)
  have 3: "accepts s (try4 (lpar s) (RE s) (rpar s) (RE_prime s) 3 2 1) lang_RE i"
    by (rule accepts_weaken, rule try4_accepts [OF lpar_accepts RE rpar_accepts RE'])
      (auto simp: cat_def intro: lang_RE_lang_RE_prime.intros)
  have 4: "accepts s (try3 (lpar s) (RE s) (rpar s) 2 1) lang_RE i"
    by (rule accepts_weaken, rule try3_accepts [OF lpar_accepts RE rpar_accepts])
      (auto simp: cat_def intro: lang_RE_lang_RE_prime.intros)
  have 5: "accepts s (epsilon s) lang_RE i"
    by (rule accepts_weaken, rule epsilon_accepts) (auto intro: lang_RE_lang_RE_prime.intros)
  have 6: "accepts s (symbol s) lang_RE i"
    by (rule accepts_weaken, rule symbol_accepts) (auto intro: lang_RE_lang_RE_prime.intros)
  from 1 2 3 4 5 6 show ?thesis
    by (simp add: RE_alt_def RE_alts_def)
qed


lemma RE_prime_alt_accepts:
  assumes RE0: "accepts s (RE s) lang_RE i"
    and RE: "\<And>t. i < t \<Longrightarrow> t \<le> length s \<Longrightarrow> accepts s (RE s) lang_RE t"
    and RE': "\<And>t. i < t \<Longrightarrow> t \<le> length s \<Longrightarrow> accepts s (RE_prime s) lang_RE_prime t"
  shows "accepts s (RE_prime_alt s k) lang_RE_prime i"
proof -
  have 1: "accepts s (try3 (plus_tok s) (RE s) (RE_prime s) 2 1) lang_RE_prime i"
    by (rule accepts_weaken, rule try3_accepts [OF plus_tok_accepts RE RE'])
      (auto simp: cat_def intro: lang_RE_lang_RE_prime.intros)
  have 2: "accepts s (try2 (plus_tok s) (RE s) 1) lang_RE_prime i"
    by (rule accepts_weaken, rule try2_accepts [OF plus_tok_accepts RE])
      (auto simp: cat_def intro: lang_RE_lang_RE_prime.intros)
  have 3: "accepts s (try2 (star s) (RE_prime s) 1) lang_RE_prime i"
    by (rule accepts_weaken, rule try2_accepts [OF star_accepts RE'])
      (auto simp: cat_def intro: lang_RE_lang_RE_prime.intros)
  have 4: "accepts s (try2 (RE s) (RE_prime s) 1) lang_RE_prime i"
    by (rule accepts_weaken, rule try2_accepts [OF RE0 RE'])
      (auto simp: cat_def intro: lang_RE_lang_RE_prime.intros)
  have 5: "accepts s (RE s) lang_RE_prime i"
    by (rule accepts_weaken, rule RE0) (auto intro: lang_RE_lang_RE_prime.intros)
  have 6: "accepts s (star s) lang_RE_prime i"
    by (rule accepts_weaken, rule star_accepts) (auto intro: lang_RE_lang_RE_prime.intros)
  from 1 2 3 4 5 6 show ?thesis
    by (simp add: RE_prime_alt_def RE_prime_alts_def)
qed

lemma RE_accepts_both: "accepts s (RE s) lang_RE i \<and> accepts s (RE_prime s) lang_RE_prime i"
proof (induction i rule: measure_induct_rule [where f = "\<lambda>i. Suc (length s) - i"])
  case (less i)
  have RE: "accepts s (RE s) lang_RE t" and RE': "accepts s (RE_prime s) lang_RE_prime t"
    if "i < t" "t \<le> length s" for t
    using less [of t] that by auto
  have "accepts s (\<lambda>i p d. finish p (first_of (RE_alt s) i (node_init ''RE'') d)) lang_RE i"
    by (intro finish_accepts first_of_accepts RE_alt_accepts RE RE')
  then have RE0: "accepts s (RE s) lang_RE i"
    by (simp add: accepts_def RE_unfold)
  have "accepts s (\<lambda>i p d. finish p (first_of (RE_prime_alt s) i (node_init RE_prime_label) d))
      lang_RE_prime i"
    by (intro finish_accepts first_of_accepts RE_prime_alt_accepts RE0 RE RE')
  then have "accepts s (RE_prime s) lang_RE_prime i"
    by (simp add: accepts_def RE_prime_unfold)
  with RE0 show ?case ..
qed

lemma parse_sound:
  assumes "CHR 0x00 \<notin> set s" "fst (parse s)"
  shows "lang_RE s"
proof (cases s rule: parse_cases)
  case failed
  with assms show ?thesis by simp
next
  case (parsed j ks)
  with assms have "char_at s j = CHR 0x00" by simp
  with assms(1) parsed(8) have j: "j = length s" by (intro cursor_at_end)
  from acceptsD [OF conjunct1 [OF RE_accepts_both] parsed(1)] j show ?thesis
    by (simp add: consumed_def)
qed

lemma lang_nonempty: "(lang_RE w \<longrightarrow> w \<noteq> []) \<and> (lang_RE_prime w \<longrightarrow> w \<noteq> [])"
  by (induction rule: lang_RE_lang_RE_prime.induct) simp_all

lemma is_symbol_char_not_paren: "is_symbol_char c \<Longrightarrow> c \<noteq> CHR ''('' \<and> c \<noteq> CHR '')''"
  by (auto simp: is_symbol_char_def)

lemma lang_balanced:
  "(lang_RE w \<longrightarrow> count_list w (CHR ''('') = count_list w (CHR '')''))
   \<and> (lang_RE_prime w \<longrightarrow> count_list w (CHR ''('') = count_list w (CHR '')''))"
  by (induction rule: lang_RE_lang_RE_prime.induct)
    (auto dest: is_symbol_char_not_paren)

lemma not_lang_empty: "\<not> lang_RE []"
  using lang_nonempty [of "[]"] by simp

lemma not_lang_lpar_a: "\<not> lang_RE ''(a''"
  using lang_balanced [of "''(a''"] by auto

section \<open>The depth of the recursion\<close>

text \<open>
  \<open>RE_upto n f g s\<close> and \<open>RE_prime_upto n f g s\<close> are \<open>RE\<close> and \<open>RE_prime\<close> with the
  mutual recursion unrolled \<open>n\<close> calls deep: the body of each is the one of the source
  (the same alternatives, in the same order), the calls it makes go to the unrolling of
  depth \<open>n - 1\<close>, and a call nested deeper than \<open>n\<close> goes to \<open>f\<close> (for \<open>RE\<close>) or to \<open>g\<close>
  (for \<open>RE_prime\<close>), two arbitrary recognizers. When the unrolling agrees with the
  function whatever \<open>f\<close> and \<open>g\<close> are, no chain of nested calls is longer than \<open>n\<close>.
\<close>

fun RE_upto :: "nat \<Rightarrow> recog \<Rightarrow> recog \<Rightarrow> string \<Rightarrow> recog"
  and RE_prime_upto :: "nat \<Rightarrow> recog \<Rightarrow> recog \<Rightarrow> string \<Rightarrow> recog" where
  "RE_upto 0 f g s = f"
| "RE_upto (Suc n) f g s =
     (\<lambda>i p d. finish p
        (first_of (RE_alts (RE_upto n f g s) (RE_prime_upto n f g s) s) i (node_init ''RE'') d))"
| "RE_prime_upto 0 f g s = g"
| "RE_prime_upto (Suc n) f g s =
     (\<lambda>i p d. finish p
        (first_of (RE_prime_alts (RE_upto n f g s) (RE_prime_upto n f g s) s) i
           (node_init RE_prime_label) d))"

lemma try2_agree:
  assumes "A i n d = A' i n d"
    and "\<And>t1 n1 d1. A' i n d = (Some t1, n1, d1) \<Longrightarrow> B t1 n1 d1 = B' t1 n1 d1"
  shows "try2 A B k i n d = try2 A' B' k i n d"
  using assms by (auto simp: try2_def split: prod.splits option.splits)

lemma first_of_agree:
  assumes "\<And>k. alt k i = alt' k i"
  shows "first_of alt i n d = first_of alt' i n d"
  unfolding first_of_def otherwise_def assms by (rule refl)

text \<open>
  An alternative of \<open>RE\<close> calls \<open>RE\<close> and \<open>RE_prime\<close> only at cursors past its own, after
  a terminal has been consumed; an alternative of \<open>RE_prime\<close> calls \<open>RE_prime\<close> only at
  later cursors, and \<open>RE\<close> at its own cursor or later.
\<close>

lemma RE_alts_agree:
  assumes re: "\<And>t n d. i < t \<Longrightarrow> t \<le> length s \<Longrightarrow> re t n d = RE s t n d"
    and re': "\<And>t n d. i < t \<Longrightarrow> t \<le> length s \<Longrightarrow> re' t n d = RE_prime s t n d"
  shows "RE_alts re re' s k i n d = RE_alt s k i n d"
proof -
  have 1: "try2 (epsilon s) re' 1 i n d = try2 (epsilon s) (RE_prime s) 1 i n d" for n d
    by (rule try2_agree) (auto dest!: epsilon_Some intro: re')
  have 2: "try2 (symbol s) re' 1 i n d = try2 (symbol s) (RE_prime s) 1 i n d" for n d
    by (rule try2_agree) (auto dest!: symbol_Some intro: re')
  have lr: "try2 (lpar s) re 1 i n d = try2 (lpar s) (RE s) 1 i n d" for n d
    by (rule try2_agree) (auto dest!: lpar_Some intro: re)
  have 4: "try3 (lpar s) re (rpar s) 2 1 i n d = try3 (lpar s) (RE s) (rpar s) 2 1 i n d" for n d
    unfolding try3_as_try2 by (rule try2_agree) (simp_all add: lr)
  have 3: "try4 (lpar s) re (rpar s) re' 3 2 1 i n d
      = try4 (lpar s) (RE s) (rpar s) (RE_prime s) 3 2 1 i n d" for n d
    unfolding try4_as_try2
  proof (rule try2_agree)
    show "try3 (lpar s) re (rpar s) 2 1 i n d = try3 (lpar s) (RE s) (rpar s) 2 1 i n d"
      by (rule 4)
  next
    fix t1 n1 d1
    assume "try3 (lpar s) (RE s) (rpar s) 2 1 i n d = (Some t1, n1, d1)"
    then have "i < t1 \<and> t1 \<le> length s"
      by (auto dest!: try3_SomeD lpar_Some rpar_Some RE_progress)
    then show "re' t1 n1 d1 = RE_prime s t1 n1 d1" by (simp add: re')
  qed
  from 1 2 3 4 show ?thesis
    by (simp add: RE_alt_def RE_alts_def)
qed

lemma RE_prime_alts_agree:
  assumes re: "\<And>t n d. i < t \<Longrightarrow> t \<le> length s \<Longrightarrow> re t n d = RE s t n d"
    and re0: "\<And>n d. re i n d = RE s i n d"
    and re': "\<And>t n d. i < t \<Longrightarrow> t \<le> length s \<Longrightarrow> re' t n d = RE_prime s t n d"
  shows "RE_prime_alts re re' s k i n d = RE_prime_alt s k i n d"
proof -
  have 2: "try2 (plus_tok s) re 1 i n d = try2 (plus_tok s) (RE s) 1 i n d" for n d
    by (rule try2_agree) (auto dest!: plus_tok_Some intro: re)
  have 1: "try3 (plus_tok s) re re' 2 1 i n d = try3 (plus_tok s) (RE s) (RE_prime s) 2 1 i n d"
    for n d
    unfolding try3_as_try2
  proof (rule try2_agree)
    show "try2 (plus_tok s) re 1 i n d = try2 (plus_tok s) (RE s) 1 i n d"
      by (rule 2)
  next
    fix t1 n1 d1
    assume "try2 (plus_tok s) (RE s) 1 i n d = (Some t1, n1, d1)"
    then have "i < t1 \<and> t1 \<le> length s"
      by (auto dest!: try2_SomeD plus_tok_Some RE_progress)
    then show "re' t1 n1 d1 = RE_prime s t1 n1 d1" by (simp add: re')
  qed
  have 3: "try2 (star s) re' 1 i n d = try2 (star s) (RE_prime s) 1 i n d" for n d
    by (rule try2_agree) (auto dest!: star_Some intro: re')
  have 4: "try2 re re' 1 i n d = try2 (RE s) (RE_prime s) 1 i n d" for n d
    by (rule try2_agree) (auto dest!: RE_progress intro: re0 re')
  from 1 2 3 4 re0 show ?thesis
    by (simp add: RE_prime_alt_def RE_prime_alts_def)
qed

lemma upto_both:
  "(2 * (length s - i) < n \<longrightarrow> RE_upto n f g s i p d = RE s i p d)
   \<and> (2 * (length s - i) + 1 < n \<longrightarrow> RE_prime_upto n f g s i p d = RE_prime s i p d)"
proof (induction n arbitrary: i p d)
  case 0
  show ?case by simp
next
  case (Suc n)
  have re': "RE_prime_upto n f g s t p d = RE_prime s t p d"
    if "2 * (length s - i) < Suc n" "i < t" "t \<le> length s" for t p d
  proof -
    from that have "2 * (length s - t) + 1 < n" by simp
    with Suc show ?thesis by blast
  qed
  have re: "RE_upto n f g s t p d = RE s t p d"
    if "2 * (length s - i) < Suc n" "i < t" "t \<le> length s" for t p d
  proof -
    from that have "2 * (length s - t) < n" by simp
    with Suc show ?thesis by blast
  qed
  have re0: "RE_upto n f g s i p d = RE s i p d"
    if "2 * (length s - i) + 1 < Suc n" for p d
  proof -
    from that have "2 * (length s - i) < n" by simp
    with Suc show ?thesis by blast
  qed
  have A: "RE_upto (Suc n) f g s i p d = RE s i p d" if b: "2 * (length s - i) < Suc n"
  proof -
    have "RE_alts (RE_upto n f g s) (RE_prime_upto n f g s) s k i = RE_alt s k i" for k
      by (intro ext RE_alts_agree re re' b)
    then have "first_of (RE_alts (RE_upto n f g s) (RE_prime_upto n f g s) s) i n0 d0
        = first_of (RE_alt s) i n0 d0" for n0 d0
      by (rule first_of_agree)
    then show ?thesis by (simp add: RE_unfold)
  qed
  have B: "RE_prime_upto (Suc n) f g s i p d = RE_prime s i p d"
    if b: "2 * (length s - i) + 1 < Suc n"
  proof -
    from b have b': "2 * (length s - i) < Suc n" by simp
    have "RE_prime_alts (RE_upto n f g s) (RE_prime_upto n f g s) s k i = RE_prime_alt s k i" for k
      by (intro ext RE_prime_alts_agree re re' re0 b b')
    then have "first_of (RE_prime_alts (RE_upto n f g s) (RE_prime_upto n f g s) s) i n0 d0
        = first_of (RE_prime_alt s) i n0 d0" for n0 d0
      by (rule first_of_agree)
    then show ?thesis by (simp add: RE_prime_unfold)
  qed
  from A B show ?case by blast
qed

lemma RE_upto_agree:
  "rank (Inl (s, i, p, d)) < n \<Longrightarrow> RE_upto n f g s i p d = RE s i p d"
  using upto_both [of s i n f g p d] by (simp add: rank_def)

lemma RE_prime_upto_agree:
  "rank (Inr (s, i, p, d)) < n \<Longrightarrow> RE_prime_upto n f g s i p d = RE_prime s i p d"
  using upto_both [of s i n f g p d] by (simp add: rank_def)

lemma parse_upto:
  "parse s =
     (case RE_upto (Suc (2 * length s)) f g s 0 (node_init ''Root'') 0 of
        (None, p_node, d) \<Rightarrow> (False, p_node, d)
      | (Some end_index, p_node, d) \<Rightarrow> (char_at s end_index = CHR 0x00, p_node, d))"
  by (simp add: parse_def RE_upto_agree rank_def del: RE_upto.simps)

section \<open>Runs on concrete inputs\<close>

text \<open>A node without children, with its four empty slots written out.\<close>

definition leaf :: "string \<Rightarrow> Node" where
  "leaf lbl = Node lbl [None, None, None, None]"

lemma parse_ab:
  "parse ''ab'' =
     (True,
      Node ''Root''
        [Some (Node ''RE''
           [Some (leaf ''a''),
            Some (Node RE_prime_label
              [Some (Node ''RE'' [Some (leaf ''b''), None, None, None]), None, None, None]),
            None, None]),
         None, None, None],
      0)"
  by code_simp

lemma parse_a_plus_b:
  "parse ''a+b'' =
     (True,
      Node ''Root''
        [Some (Node ''RE''
           [Some (leaf ''a''),
            Some (Node RE_prime_label
              [Some (leaf ''+''),
               Some (Node ''RE'' [Some (leaf ''b''), None, None, None]), None, None]),
            None, None]),
         None, None, None],
      0)"
  by code_simp

lemma parse_hash:
  "parse ''#'' =
     (True,
      Node ''Root'' [Some (Node ''RE'' [Some (leaf ''#''), None, None, None]), None, None, None],
      0)"
  by code_simp

lemma parse_a_star:
  "parse ''a*'' =
     (True,
      Node ''Root''
        [Some (Node ''RE''
           [Some (leaf ''a''),
            Some (Node RE_prime_label [Some (leaf ''*''), None, None, None]),
            None, None]),
         None, None, None],
      0)"
  by code_simp

lemma parse_empty: "parse '''' = (False, node_init ''Root'', 0)"
  by code_simp

lemma parse_lpar_a: "parse ''(a'' = (False, node_init ''Root'', 0)"
  by code_simp

lemma parse_a_rpar:
  "parse ''a)'' =
     (False,
      Node ''Root'' [Some (Node ''RE'' [Some (leaf ''a''), None, None, None]), None, None, None],
      0)"
  by code_simp

lemma RE_lpar_a: "RE ''(a'' 0 (node_init ''Root'') 0 = (None, node_init ''Root'', 0)"
  by code_simp

lemma RE_alt3_lpar_a: "RE_alt ''(a'' 3 0 (node_init ''RE'') 0 = (None, node_init ''RE'', 0)"
  by code_simp

lemma RE_prime_alt2_plus: "RE_prime_alt ''+'' 2 0 (node_init RE_prime_label) 0 = (None, node_init RE_prime_label, 0)"
  by code_simp

lemma RE_prime_at_end: "RE_prime ''a'' 1 (node_init ''RE'') 0 = (None, node_init ''RE'', 0)"
  by code_simp

lemma RE_prime_lpar_a: "RE_prime ''(a'' 0 (node_init ''Root'') 0 = (None, node_init ''Root'', 0)"
  by code_simp

lemma RE_prime_alt3_lpar_a:
  "RE_prime_alt ''(a'' 3 0 (node_init ''RE'') 0 = (None, node_init ''RE'', 0)"
  by code_simp

lemma RE_alt_a_star:
  "fst (RE_alt ''a*'' 1 0 (node_init ''RE'') 0) = None
   \<and> fst (RE_alt ''a*'' 2 0 (node_init ''RE'') 0) = Some 2
   \<and> fst (RE_alt ''a*'' 6 0 (node_init ''RE'') 0) = Some 1"
  by code_simp

lemma RE_prime_alt_a_star:
  "fst (RE_prime_alt ''a*'' 1 1 (node_init RE_prime_label) 0) = None
   \<and> fst (RE_prime_alt ''a*'' 2 1 (node_init RE_prime_label) 0) = None
   \<and> fst (RE_prime_alt ''a*'' 3 1 (node_init RE_prime_label) 0) = None
   \<and> fst (RE_prime_alt ''a*'' 4 1 (node_init RE_prime_label) 0) = None
   \<and> fst (RE_prime_alt ''a*'' 5 1 (node_init RE_prime_label) 0) = None
   \<and> fst (RE_prime_alt ''a*'' 6 1 (node_init RE_prime_label) 0) = Some 2"
  by code_simp

lemma leaf_mk: "leaf lbl = mk lbl []"
  by (simp add: leaf_def mk_def MAX_CHILDS_def eval_nat_numeral)

lemma compact_node_init [simp]: "compact (node_init lbl)"
  by (simp add: node_init_mk)

lemma attached_node_init [simp]: "attached (node_init lbl) = []"
  by (simp add: node_init_mk)

lemma compact_slots:
  assumes "compact p"
  shows "length (childs p) = MAX_CHILDS \<and> length (attached p) \<le> MAX_CHILDS"
proof -
  from assms have le: "length (attached p) \<le> MAX_CHILDS"
    and eq: "p = mk (content p) (attached p)"
    by (simp_all add: compact_def)
  from le have "length (childs (mk (content p) (attached p))) = MAX_CHILDS"
    by (simp add: childs_mk)
  with eq le show ?thesis by metis
qed

lemma wf_tree_slots:
  "wf_tree p \<Longrightarrow> length (childs p) = MAX_CHILDS \<and> length (attached p) \<le> MAX_CHILDS"
  using compact_slots [of p] by (cases p) auto

lemma RE_upto_short:
  "RE_upto 2 (\<lambda>i p d. (Some 9, p, d)) (\<lambda>i p d. (Some 9, p, d)) ''a'' 0 (node_init ''Root'') 0
     \<noteq> RE ''a'' 0 (node_init ''Root'') 0"
  by code_simp

section \<open>The claims\<close>

subsection \<open>C4: rolling back the last \<open>n\<close> children\<close>

text \<open>
  C4 as stated covers every \<open>n\<close> up to the number of attached children, \<open>n = 0\<close>
  included. There it fails: the test \<^verbatim>\<open>n == 0\<close> comes after the decrement, so on a node
  whose last slot is occupied a count of \<open>0\<close> becomes \<open>-1\<close> and never meets the test;
  the loop releases all four children instead of none.
\<close>

theorem C4_counterexample:
  "length (attached (Node ''RE'' [Some (leaf ''a''), Some (leaf ''b''), Some (leaf ''c''), Some (leaf ''d'')])) = 4
   \<and> attached (node_free_last_childs
        (Node ''RE'' [Some (leaf ''a''), Some (leaf ''b''), Some (leaf ''c''), Some (leaf ''d'')]) 0) = []"
  by code_simp

text \<open>
  C4, amended: for every node with \<open>MAX_CHILDS\<close> slots and every \<open>n\<close> with
  \<open>1 \<le> n\<close> and at most the number of attached children,
  \<open>node_free_last_childs\<close> releases exactly the last \<open>n\<close> attached children. There is
  a slot \<open>k\<close>, itself occupied, such that exactly \<open>n\<close> children sit in the slots from
  \<open>k\<close> on (empty slots between them are skipped); afterwards the slots from \<open>k\<close> on
  are all empty and the slots below \<open>k\<close>, the label and so all earlier children are
  as before.
\<close>

theorem C4_rollback_last_n:
  assumes "length (childs p) = MAX_CHILDS" "1 \<le> n" "n \<le> int (length (attached p))"
  shows "\<exists>k<MAX_CHILDS.
           childs p ! k \<noteq> None
         \<and> int (length (present (drop k (childs p)))) = n
         \<and> childs (node_free_last_childs p n) = take k (childs p) @ replicate (MAX_CHILDS - k) None
         \<and> content (node_free_last_childs p n) = content p
         \<and> attached (node_free_last_childs p n) = take (length (attached p) - nat n) (attached p)"
proof -
  from free_last_loop_spec [of MAX_CHILDS "childs p" n] assms obtain k where
    k: "k < MAX_CHILDS" "childs p ! k \<noteq> None"
    "int (length (present (drop k (childs p)))) = n"
    "free_last_loop MAX_CHILDS (childs p) n = take k (childs p) @ replicate (MAX_CHILDS - k) None"
    by (auto simp: attached_def)
  have "present (childs p) = present (take k (childs p)) @ present (drop k (childs p))"
    by (metis append_take_drop_id present_simps(4))
  with k(3) have "take (length (attached p) - nat n) (attached p) = present (take k (childs p))"
    by (simp add: attached_def)
  with k show ?thesis
    by (intro exI [of _ k]) (simp add: node_free_last_childs_def attached_def)
qed

text \<open>A node with a gap: the last two of its three children go, across the gap.\<close>

theorem C4_witness:
  "length (childs (Node ''RE'' [Some (leaf ''a''), None, Some (leaf ''b''), Some (leaf ''c'')])) = MAX_CHILDS
   \<and> (1::int) \<le> 2
   \<and> 2 \<le> int (length (attached (Node ''RE'' [Some (leaf ''a''), None, Some (leaf ''b''), Some (leaf ''c'')])))
   \<and> attached (node_free_last_childs
        (Node ''RE'' [Some (leaf ''a''), None, Some (leaf ''b''), Some (leaf ''c'')]) 2) = [leaf ''a'']"
  using C4_rollback_last_n [of "Node ''RE'' [Some (leaf ''a''), None, Some (leaf ''b''), Some (leaf ''c'')]" 2]
  by (auto simp: MAX_CHILDS_def attached_def)

subsection \<open>C1: a successful parse has consumed the whole input\<close>

text \<open>
  C1 as stated says that \<^verbatim>\<open>parse("ab")\<close> fails. It succeeds: the grammar has
  concatenation (\<^verbatim>\<open>RE ::= symbol RE'\<close> and \<^verbatim>\<open>RE' ::= RE\<close>), so two adjacent symbols are
  derived without an operator.
\<close>

theorem C1_counterexample: "fst (parse ''ab'') = True"
  by (simp add: parse_ab)

text \<open>
  C1, amended: \<open>parse s\<close> returns true only if the top-level \<open>RE\<close> has consumed the
  entire input, that is, if the cursor it returns is \<open>length s\<close>, where the
  terminating NUL stands (the characters of a C string contain no NUL); and both
  \<^verbatim>\<open>parse("ab")\<close> and \<^verbatim>\<open>parse("a+b")\<close> succeed.
\<close>

theorem C1_entire_input:
  "(CHR 0x00 \<notin> set s \<and> fst (parse s) \<longrightarrow>
      (\<exists>p d. RE s 0 (node_init ''Root'') 0 = (Some (length s), p, d))
      \<and> char_at s (length s) = CHR 0x00)
   \<and> fst (parse ''ab'') \<and> fst (parse ''a+b'')"
proof -
  have "\<exists>p d. RE s 0 (node_init ''Root'') 0 = (Some (length s), p, d)"
    if nul: "CHR 0x00 \<notin> set s" and ok: "fst (parse s)"
  proof (cases s rule: parse_cases)
    case failed
    with ok show ?thesis by simp
  next
    case (parsed j ks)
    with ok have "char_at s j = CHR 0x00" by simp
    with nul parsed(8) have "j = length s" by (intro cursor_at_end)
    with parsed(1) show ?thesis by blast
  qed
  then show ?thesis
    by (simp add: parse_ab parse_a_plus_b char_at_def)
qed

theorem C1_witness:
  "CHR 0x00 \<notin> set ''a+b'' \<and> fst (parse ''a+b'')
   \<and> (\<exists>p d. RE ''a+b'' 0 (node_init ''Root'') 0 = (Some 3, p, d))"
  using C1_entire_input [of "''a+b''"]
  by (simp add: parse_a_plus_b numeral_3_eq_3)

subsection \<open>C2: the leaves of the tree spell the input\<close>

text \<open>
  The reading of the leaves that C2 states: the labels of the leaves from left to
  right, a leaf labelled \<^verbatim>\<open>"#"\<close> contributing the empty string.
\<close>

fun yield_hash_empty :: "Node \<Rightarrow> string" where
  "yield_hash_empty (Node lbl cs) =
     (if present cs = [] then (if lbl = ''#'' then [] else lbl)
      else concat (map (\<lambda>x. case x of None \<Rightarrow> [] | Some c \<Rightarrow> yield_hash_empty c) cs))"

text \<open>
  C2 as stated fails on the accepted input \<^verbatim>\<open>"#"\<close>: its tree has the single leaf
  \<^verbatim>\<open>"#"\<close>, which stands for the input character \<^verbatim>\<open>'#'\<close>; read as the empty string it
  yields \<^verbatim>\<open>""\<close>, not the input.
\<close>

theorem C2_counterexample:
  "fst (parse ''#'') \<and> yield_hash_empty (fst (snd (parse ''#''))) \<noteq> ''#''"
  by (simp add: parse_hash leaf_def)

text \<open>
  C2, amended: for every input accepted by \<open>parse\<close>, concatenating the labels of the
  leaves of the produced tree from left to right, every leaf contributing its label
  (a \<^verbatim>\<open>"#"\<close> leaf the character \<^verbatim>\<open>'#'\<close>), yields exactly the input.
\<close>

theorem C2_leaves_spell_input:
  assumes "CHR 0x00 \<notin> set s" "fst (parse s)"
  shows "yield (fst (snd (parse s))) = s"
proof (cases s rule: parse_cases)
  case failed
  with assms show ?thesis by simp
next
  case (parsed j ks)
  with assms have "char_at s j = CHR 0x00" by simp
  with assms(1) parsed(8) have "j = length s" by (intro cursor_at_end)
  with parsed show ?thesis
    by (simp add: yield_mk consumed_def)
qed

theorem C2_witness:
  "CHR 0x00 \<notin> set ''a+b'' \<and> fst (parse ''a+b'') \<and> yield (fst (snd (parse ''a+b''))) = ''a+b''"
  using C2_leaves_spell_input [of "''a+b''"]
  by (simp add: parse_a_plus_b)

subsection \<open>C3: a failed attempt leaves the tree as it was\<close>

text \<open>
  C3: whenever \<open>RE\<close> or \<open>RE_prime\<close> returns false, the caller's node (and the counter
  of dropped children) is exactly as before the call; the caller's node is, as
  everywhere in a run of \<open>parse\<close>, compact with a free slot. And whenever one of the
  six alternatives of \<open>RE\<close> or of \<open>RE_prime\<close> fails, the node under construction,
  which has no children when an alternative starts, is exactly as before: the
  rollback has removed precisely what the alternative attached.
\<close>

theorem C3_rollback_exact:
  assumes "compact p" "length (attached p) < MAX_CHILDS"
  shows "(RE s i p d = (None, p', d') \<longrightarrow> p' = p \<and> d' = d)
       \<and> (RE_prime s i p d = (None, p', d') \<longrightarrow> p' = p \<and> d' = d)
       \<and> (RE_alt s k i (node_init lbl) d = (None, n', e') \<longrightarrow> n' = node_init lbl \<and> e' = d)
       \<and> (RE_prime_alt s k i (node_init lbl) d = (None, n', e') \<longrightarrow> n' = node_init lbl \<and> e' = d)"
proof -
  from assms(1) have p: "p = mk (content p) (attached p)" by (rule compactD)
  have len: "length ([] :: Node list) + MAX_CHILDS \<le> MAX_CHILDS" by simp
  have 1: "RE s i p d = (None, p', d') \<longrightarrow> p' = p \<and> d' = d"
    using RE_NoneD [OF assms(2), of s i "content p" d p' d'] p by simp
  have 2: "RE_prime s i p d = (None, p', d') \<longrightarrow> p' = p \<and> d' = d"
    using RE_prime_NoneD [OF assms(2), of s i "content p" d p' d'] p by simp
  have "tidy s (RE_alt s k) 1 MAX_CHILDS i"
    by (intro RE_alt_tidy RE_tidy RE_prime_tidy)
  from tidyD [OF this len, where lbl = lbl and d = d]
  have 3: "RE_alt s k i (node_init lbl) d = (None, n', e') \<longrightarrow> n' = node_init lbl \<and> e' = d"
    by (auto simp: node_init_mk dest!: post_NoneD)
  have "tidy s (RE_prime_alt s k) 1 MAX_CHILDS i"
    by (intro RE_prime_alt_tidy RE_tidy RE_prime_tidy)
  from tidyD [OF this len, where lbl = lbl and d = d]
  have 4: "RE_prime_alt s k i (node_init lbl) d = (None, n', e') \<longrightarrow> n' = node_init lbl \<and> e' = d"
    by (auto simp: node_init_mk dest!: post_NoneD)
  from 1 2 3 4 show ?thesis by blast
qed

text \<open>
  On \<^verbatim>\<open>"(a"\<close> the third alternative of \<open>RE\<close> attaches \<^verbatim>\<open>(\<close> and an \<open>RE\<close> subtree, misses
  the \<^verbatim>\<open>)\<close> and rolls both back; in the end \<open>RE\<close> itself fails.
\<close>

theorem C3_witness:
  "compact (node_init ''Root'') \<and> length (attached (node_init ''Root'')) < MAX_CHILDS
   \<and> RE ''(a'' 0 (node_init ''Root'') 0 = (None, node_init ''Root'', 0)
   \<and> RE_prime ''(a'' 0 (node_init ''Root'') 0 = (None, node_init ''Root'', 0)
   \<and> RE_alt ''(a'' 3 0 (node_init ''RE'') 0 = (None, node_init ''RE'', 0)
   \<and> RE_prime_alt ''(a'' 3 0 (node_init ''RE'') 0 = (None, node_init ''RE'', 0)"
  using C3_rollback_exact [of "node_init ''Root''" "''(a''" 0 0 "node_init ''Root''" 0 3 "''RE''"
      "node_init ''RE''" 0]
  by (simp add: RE_lpar_a RE_prime_lpar_a RE_alt3_lpar_a RE_prime_alt3_lpar_a MAX_CHILDS_def)

subsection \<open>C5: the first alternative that succeeds wins\<close>

text \<open>
  C5: \<^verbatim>\<open>parse("a*")\<close> succeeds with the tree in which \<open>RE\<close> has the children \<^verbatim>\<open>a\<close> and
  \<open>RE'\<close> (the alternative \<^verbatim>\<open>symbol RE'\<close>) and that \<open>RE'\<close> has the single child \<^verbatim>\<open>*\<close>
  (the alternative \<^verbatim>\<open>*\<close>). At cursor 0 the first alternative of \<open>RE\<close> fails and the
  second succeeds with cursor 2, although the sixth (\<^verbatim>\<open>symbol\<close> alone, the shorter
  match) would succeed too; at cursor 1 the first five alternatives of \<open>RE'\<close> fail,
  among them the longer \<^verbatim>\<open>* RE'\<close>, and the sixth succeeds.
\<close>

theorem C5_first_alternative_wins:
  "parse ''a*'' =
     (True,
      Node ''Root''
        [Some (Node ''RE''
           [Some (leaf ''a''),
            Some (Node RE_prime_label [Some (leaf ''*''), None, None, None]),
            None, None]),
         None, None, None],
      0)
   \<and> fst (RE_alt ''a*'' 1 0 (node_init ''RE'') 0) = None
   \<and> fst (RE_alt ''a*'' 2 0 (node_init ''RE'') 0) = Some 2
   \<and> fst (RE_alt ''a*'' 6 0 (node_init ''RE'') 0) = Some 1
   \<and> fst (RE_prime_alt ''a*'' 1 1 (node_init RE_prime_label) 0) = None
   \<and> fst (RE_prime_alt ''a*'' 2 1 (node_init RE_prime_label) 0) = None
   \<and> fst (RE_prime_alt ''a*'' 3 1 (node_init RE_prime_label) 0) = None
   \<and> fst (RE_prime_alt ''a*'' 4 1 (node_init RE_prime_label) 0) = None
   \<and> fst (RE_prime_alt ''a*'' 5 1 (node_init RE_prime_label) 0) = None
   \<and> fst (RE_prime_alt ''a*'' 6 1 (node_init RE_prime_label) 0) = Some 2"
  using parse_a_star RE_alt_a_star RE_prime_alt_a_star by blast

subsection \<open>C6: the root has the top-level \<open>RE\<close> node as its only child\<close>

text \<open>
  C6: on every successful parse the root, labelled \<^verbatim>\<open>"Root"\<close>, has exactly one
  attached child, in its first slot, and that child is labelled \<^verbatim>\<open>"RE"\<close>; and
  \<^verbatim>\<open>parse("#")\<close> succeeds with an \<open>RE\<close> node whose single child is the leaf \<^verbatim>\<open>"#"\<close>.
\<close>

theorem C6_root_single_child:
  "(fst (parse s) \<longrightarrow>
      content (fst (snd (parse s))) = ''Root''
      \<and> (\<exists>c. attached (fst (snd (parse s))) = [c] \<and> content c = ''RE''
            \<and> childs (fst (snd (parse s))) = Some c # replicate (MAX_CHILDS - 1) None))
   \<and> parse ''#'' =
       (True,
        Node ''Root'' [Some (Node ''RE'' [Some (leaf ''#''), None, None, None]), None, None, None],
        0)"
proof -
  have "content (fst (snd (parse s))) = ''Root''
      \<and> (\<exists>c. attached (fst (snd (parse s))) = [c] \<and> content c = ''RE''
            \<and> childs (fst (snd (parse s))) = Some c # replicate (MAX_CHILDS - 1) None)"
    if "fst (parse s)"
  proof (cases s rule: parse_cases)
    case failed
    with that show ?thesis by simp
  next
    case (parsed j ks)
    then show ?thesis
      by (simp add: childs_mk)
  qed
  with parse_hash show ?thesis by blast
qed

theorem C6_witness:
  "fst (parse ''#'') \<and> content (fst (snd (parse ''#''))) = ''Root''
   \<and> (\<exists>c. attached (fst (snd (parse ''#''))) = [c] \<and> content c = ''RE'')"
  using C6_root_single_child [of "''#''"]
  by (auto simp: parse_hash)

subsection \<open>C7: an input outside the language is answered with false\<close>

text \<open>
  C7: for every input (a string without \<^verbatim>\<open>NUL\<close>, which the terminator ends) that is not
  in the language of the grammar, \<open>parse\<close> returns the boolean \<^verbatim>\<open>false\<close>, its only
  report of the failure (\<open>parse\<close> is a total function into the booleans, with the tree
  beside); in particular the empty input and \<^verbatim>\<open>"(a"\<close> are outside the language, and
  \<open>parse\<close> returns \<^verbatim>\<open>false\<close> on both.
\<close>

theorem C7_outside_language_false:
  "(CHR 0x00 \<notin> set s \<and> \<not> lang_RE s \<longrightarrow> fst (parse s) = False)
   \<and> \<not> lang_RE '''' \<and> fst (parse '''') = False
   \<and> \<not> lang_RE ''(a'' \<and> fst (parse ''(a'') = False"
  using parse_sound [of s] not_lang_empty not_lang_lpar_a
  by (auto simp: parse_empty parse_lpar_a)

theorem C7_witness:
  "CHR 0x00 \<notin> set ''(a'' \<and> \<not> lang_RE ''(a'' \<and> fst (parse ''(a'') = False"
  using C7_outside_language_false [of "''(a''"]
  by simp

subsection \<open>C8: termination, and the depth of the recursion\<close>

text \<open>
  C8: \<open>RE\<close> and \<open>RE_prime\<close> terminate on every input (every argument \<open>x\<close> is in the domain
  on which the recursion is well-founded; \<open>parse\<close> calls \<open>RE\<close> once and does not loop),
  and the depth of the recursion is bounded by the length of the input: with
  \<open>rank\<close> = 2 \<open>\<times>\<close> (characters left) for a call of \<open>RE\<close>, and one more for a call of
  \<open>RE_prime\<close>, unrolling the recursion more than \<open>rank\<close> calls deep gives the function
  itself, whatever stands at the deeper calls; for \<open>parse\<close>, 2 \<open>\<times>\<close> length + 1 nested calls
  suffice. The reason is the one the claim gives: the alternatives of \<open>RE\<close> use the
  recursive calls only at cursors past their own (a terminal is consumed first), those of
  \<open>RE_prime\<close> use \<open>RE_prime\<close> only at later cursors and \<open>RE\<close> at their own cursor or
  later.
\<close>

theorem C8_terminates_depth_bounded:
  "RE_RE_prime_dom x
   \<and> (rank (Inl (s, i, p, d)) < n \<longrightarrow> RE_upto n f g s i p d = RE s i p d)
   \<and> (rank (Inr (s, i, p, d)) < n \<longrightarrow> RE_prime_upto n f g s i p d = RE_prime s i p d)
   \<and> parse s =
       (case RE_upto (Suc (2 * length s)) f g s 0 (node_init ''Root'') 0 of
          (None, p_node, d) \<Rightarrow> (False, p_node, d)
        | (Some end_index, p_node, d) \<Rightarrow> (char_at s end_index = CHR 0x00, p_node, d))
   \<and> ((\<forall>t n d. i < t \<longrightarrow> re t n d = RE s t n d)
        \<and> (\<forall>t n d. i < t \<longrightarrow> re' t n d = RE_prime s t n d)
      \<longrightarrow> RE_alts re re' s k i p d = RE_alt s k i p d)
   \<and> ((\<forall>t n d. i \<le> t \<longrightarrow> re t n d = RE s t n d)
        \<and> (\<forall>t n d. i < t \<longrightarrow> re' t n d = RE_prime s t n d)
      \<longrightarrow> RE_prime_alts re re' s k i p d = RE_prime_alt s k i p d)"
proof -
  have "RE_RE_prime_dom x"
    using RE_RE_prime_total by blast
  moreover have "RE_alts re re' s k i p d = RE_alt s k i p d"
    if "\<forall>t n d. i < t \<longrightarrow> re t n d = RE s t n d"
      and "\<forall>t n d. i < t \<longrightarrow> re' t n d = RE_prime s t n d"
    using that by (intro RE_alts_agree) simp_all
  moreover have "RE_prime_alts re re' s k i p d = RE_prime_alt s k i p d"
    if "\<forall>t n d. i \<le> t \<longrightarrow> re t n d = RE s t n d"
      and "\<forall>t n d. i < t \<longrightarrow> re' t n d = RE_prime s t n d"
    using that by (intro RE_prime_alts_agree) simp_all
  ultimately show ?thesis
    using RE_upto_agree [of s i p d n f g] RE_prime_upto_agree [of s i p d n f g]
      parse_upto [of s f g]
    by blast
qed

theorem C8_witness:
  "rank (Inl (''a'', 0, node_init ''Root'', 0)) < 3
   \<and> RE_RE_prime_dom (Inl (''a'', 0, node_init ''Root'', 0))
   \<and> RE_upto 3 (\<lambda>i p d. (Some 9, p, d)) (\<lambda>i p d. (Some 9, p, d)) ''a'' 0 (node_init ''Root'') 0
       = RE ''a'' 0 (node_init ''Root'') 0
   \<and> rank (Inr (''a'', 0, node_init ''Root'', 0)) < 4
   \<and> RE_prime_upto 4 (\<lambda>i p d. (Some 9, p, d)) (\<lambda>i p d. (Some 9, p, d)) ''a'' 0
         (node_init ''Root'') 0
       = RE_prime ''a'' 0 (node_init ''Root'') 0
   \<and> RE_alts (RE ''a'') (RE_prime ''a'') ''a'' 2 0 (node_init ''RE'') 0
       = RE_alt ''a'' 2 0 (node_init ''RE'') 0
   \<and> RE_prime_alts (RE ''a'') (RE_prime ''a'') ''a'' 4 0 (node_init ''RE'') 0
       = RE_prime_alt ''a'' 4 0 (node_init ''RE'') 0"
  using C8_terminates_depth_bounded [of "Inl (''a'', 0, node_init ''Root'', 0)" "''a''" 0
      "node_init ''Root''" 0 3 "\<lambda>i p d. (Some 9, p, d)" "\<lambda>i p d. (Some 9, p, d)"
      "RE ''a''" "RE_prime ''a''" 2]
    C8_terminates_depth_bounded [of "Inl (''a'', 0, node_init ''Root'', 0)" "''a''" 0
      "node_init ''Root''" 0 4 "\<lambda>i p d. (Some 9, p, d)" "\<lambda>i p d. (Some 9, p, d)"
      "RE ''a''" "RE_prime ''a''" 4]
    C8_terminates_depth_bounded [of "Inl (''a'', 0, node_init ''Root'', 0)" "''a''" 0
      "node_init ''RE''" 0 4 "\<lambda>i p d. (Some 9, p, d)" "\<lambda>i p d. (Some 9, p, d)"
      "RE ''a''" "RE_prime ''a''" 2]
    C8_terminates_depth_bounded [of "Inl (''a'', 0, node_init ''Root'', 0)" "''a''" 0
      "node_init ''RE''" 0 4 "\<lambda>i p d. (Some 9, p, d)" "\<lambda>i p d. (Some 9, p, d)"
      "RE ''a''" "RE_prime ''a''" 4]
  by (simp add: rank_def del: RE_upto.simps RE_prime_upto.simps)

subsection \<open>C9: no child is ever dropped\<close>

text \<open>
  C9: in a run of \<open>parse\<close> no call of \<open>node_add_child\<close> finds all slots taken: the
  counter of dropped children, which every such call would increment, is 0 at the
  end. The resulting tree is well formed: every node has its \<open>MAX_CHILDS\<close> slots and
  at most \<open>MAX_CHILDS\<close> children, in a prefix of the slots. The same holds of every
  call of \<open>RE\<close> and \<open>RE_prime\<close> on a compact node with a free slot, and of every
  alternative started on a node without children: the counter is unchanged, and the
  alternative leaves at most \<open>MAX_CHILDS\<close> children on the node.
\<close>

theorem C9_no_child_dropped:
  "snd (snd (parse s)) = 0
   \<and> wf_tree (fst (snd (parse s)))
   \<and> length (childs (fst (snd (parse s)))) = MAX_CHILDS
   \<and> length (attached (fst (snd (parse s)))) \<le> MAX_CHILDS
   \<and> (compact p \<and> length (attached p) < MAX_CHILDS \<longrightarrow>
        snd (snd (RE s i p d)) = d \<and> snd (snd (RE_prime s i p d)) = d)
   \<and> snd (snd (RE_alt s k i (node_init lbl) d)) = d
   \<and> snd (snd (RE_prime_alt s k i (node_init lbl) d)) = d
   \<and> length (attached (fst (snd (RE_alt s k i (node_init lbl) d)))) \<le> MAX_CHILDS
   \<and> length (attached (fst (snd (RE_prime_alt s k i (node_init lbl) d)))) \<le> MAX_CHILDS"
proof -
  have len: "length ([] :: Node list) + MAX_CHILDS \<le> MAX_CHILDS" by simp
  have post_d: "snd (snd r) = d \<and> length (attached (fst (snd r))) \<le> MAX_CHILDS"
    if "post s 1 MAX_CHILDS i lbl [] d r" for r
  proof (cases r)
    case (fields a n e)
    with that show ?thesis
      by (cases a) (auto dest!: post_SomeD post_NoneD)
  qed
  have root: "snd (snd (parse s)) = 0 \<and> wf_tree (fst (snd (parse s)))"
  proof (cases s rule: parse_cases)
    case failed
    then show ?thesis by (simp add: node_init_mk wf_tree_mk)
  next
    case (parsed j ks)
    then show ?thesis by (simp add: wf_tree_mk MAX_CHILDS_def)
  qed
  have RE: "snd (snd (RE s i p d)) = d \<and> snd (snd (RE_prime s i p d)) = d"
    if p: "compact p" "length (attached p) < MAX_CHILDS"
  proof -
    from p(1) have eq: "p = mk (content p) (attached p)" by (rule compactD)
    have "snd (snd r) = d" if "post s 1 1 i (content p) (attached p) d r" for r
    proof (cases r)
      case (fields a n e)
      with that show ?thesis
        by (cases a) (auto dest!: post_SomeD post_NoneD)
    qed
    with tidyD [OF RE_tidy, of "attached p" s i "content p" d]
      tidyD [OF RE_prime_tidy, of "attached p" s i "content p" d] p(2) eq
    show ?thesis by simp
  qed
  have "tidy s (RE_alt s k) 1 MAX_CHILDS i"
    by (intro RE_alt_tidy RE_tidy RE_prime_tidy)
  from post_d [OF tidyD [OF this len, where lbl = lbl and d = d]]
  have a1: "snd (snd (RE_alt s k i (node_init lbl) d)) = d
    \<and> length (attached (fst (snd (RE_alt s k i (node_init lbl) d)))) \<le> MAX_CHILDS"
    by (simp add: node_init_mk)
  have "tidy s (RE_prime_alt s k) 1 MAX_CHILDS i"
    by (intro RE_prime_alt_tidy RE_tidy RE_prime_tidy)
  from post_d [OF tidyD [OF this len, where lbl = lbl and d = d]]
  have a2: "snd (snd (RE_prime_alt s k i (node_init lbl) d)) = d
    \<and> length (attached (fst (snd (RE_prime_alt s k i (node_init lbl) d)))) \<le> MAX_CHILDS"
    by (simp add: node_init_mk)
  from root wf_tree_slots [of "fst (snd (parse s))"] RE a1 a2 show ?thesis
    by blast
qed

theorem C9_witness:
  "snd (snd (parse ''a+b'')) = 0 \<and> wf_tree (fst (snd (parse ''a+b'')))
   \<and> compact (node_init ''Root'') \<and> length (attached (node_init ''Root'')) < MAX_CHILDS
   \<and> snd (snd (RE ''a+b'' 0 (node_init ''Root'') 0)) = 0"
  using C9_no_child_dropped [of "''a+b''" "node_init ''Root''" 0 0 1 "''RE''"]
  by (simp add: MAX_CHILDS_def)

subsection \<open>C10: the root after a failed parse\<close>

text \<open>
  C10 as stated fails when \<open>parse\<close> returns false because input is left over: on
  \<^verbatim>\<open>"a)"\<close> the top-level \<open>RE\<close> succeeds on \<^verbatim>\<open>"a"\<close>, \<open>parse\<close> returns false at the \<^verbatim>\<open>)\<close>,
  and the root still holds the \<open>RE\<close> subtree.
\<close>

theorem C10_counterexample:
  "fst (parse ''a)'') = False \<and> childs (fst (snd (parse ''a)''))) \<noteq> replicate MAX_CHILDS None"
  by (simp add: parse_a_rpar MAX_CHILDS_def eval_nat_numeral)

text \<open>
  C10, amended: if \<open>parse\<close> returns false, then either the top-level \<open>RE\<close> has failed
  and all child slots of the root are \<^verbatim>\<open>NULL\<close> on return, or \<open>RE\<close> has succeeded
  with input left over and the root still has the \<open>RE\<close> node as its single child, in
  the first slot (the driver's \<^verbatim>\<open>node_free_childs\<close> releases it).
\<close>

theorem C10_root_after_failure:
  assumes "\<not> fst (parse s)"
  shows "(fst (RE s 0 (node_init ''Root'') 0) = None
          \<and> childs (fst (snd (parse s))) = replicate MAX_CHILDS None)
       \<or> (\<exists>j c. fst (RE s 0 (node_init ''Root'') 0) = Some j \<and> char_at s j \<noteq> CHR 0x00
            \<and> content c = ''RE''
            \<and> childs (fst (snd (parse s))) = Some c # replicate (MAX_CHILDS - 1) None)"
proof (cases s rule: parse_cases)
  case failed
  then show ?thesis by (simp add: node_init_def)
next
  case (parsed j ks)
  with assms have "char_at s j \<noteq> CHR 0x00" by simp
  with parsed show ?thesis
    by (simp add: childs_mk)
qed

theorem C10_witness:
  "\<not> fst (parse ''(a'') \<and> fst (RE ''(a'' 0 (node_init ''Root'') 0) = None
   \<and> childs (fst (snd (parse ''(a''))) = replicate MAX_CHILDS None"
  using C10_root_after_failure [of "''(a''"]
  by (simp add: parse_lpar_a RE_lpar_a)

end
